theory Spec2Isabelle
  imports Main "HOL-Library.Multiset"
begin

section \<open>Values, rows and errors\<close>

text \<open>
  A cell of a row is a JavaScript primitive.  Numbers are modelled as integers (the
  arithmetic of the code on them is exact below \<open>2^53\<close>); \<open>VNaN\<close> is the
  number \<open>NaN\<close>, which the code can produce by coercion.
\<close>

datatype val = VUndef | VNull | VNaN | VNum int | VStr string

type_synonym Row = "val list"

text \<open>The errors the code throws; the comment of each gives the message of the source.\<close>

datatype error =
    UnknownColumn string         \<comment> \<open>\<open>project: unknown column Id "..."\<close>, and the filter compiler's\<close>
  | UnknownOperator string       \<comment> \<open>\<open>unknown primitive table operator\<close>, \<open>unsupported operator\<close>\<close>
  | UnsupportedAggregation string  \<comment> \<open>\<open>could not find aggregator for column ...\<close>\<close>
  | NotImplemented               \<comment> \<open>\<open>OR expressions - not yet implemented\<close>\<close>
  | UnknownExprType              \<comment> \<open>\<open>error compile simple expression ...: unknown expr type\<close>\<close>
  | TypeError                    \<comment> \<open>the runtime's error for a property read on \<open>undefined\<close> or a call of a non-function\<close>
  | External string              \<comment> \<open>an error raised by a collaborator outside this file\<close>

subsection \<open>The runtime's primitives\<close>

text \<open>Decimal rendering of a number, as \<open>Number.prototype.toString\<close> gives it for an integer.\<close>

definition digit_char :: "nat \<Rightarrow> char" where
  "digit_char d = ''0123456789abcdef'' ! d"

function show_nat :: "nat \<Rightarrow> string" where
  "show_nat n = (if n < 10 then [digit_char n] else show_nat (n div 10) @ [digit_char (n mod 10)])"
  by pat_completeness auto
termination
  by (relation "measure id") auto

declare show_nat.simps [simp del]

definition show_int :: "int \<Rightarrow> string" where
  "show_int i = (if i < 0 then CHR ''-'' # show_nat (nat (- i)) else show_nat (nat i))"

text \<open>\<open>ToString\<close> of a primitive.\<close>

fun ToString :: "val \<Rightarrow> string" where
  "ToString VUndef = ''undefined''"
| "ToString VNull = ''null''"
| "ToString VNaN = ''NaN''"
| "ToString (VNum n) = show_int n"
| "ToString (VStr s) = s"

text \<open>
  \<open>a + b\<close>: string concatenation when either operand is a string, numeric addition
  otherwise, with \<open>null\<close> read as 0 and \<open>undefined\<close> as \<open>NaN\<close>.
\<close>

fun is_str :: "val \<Rightarrow> bool" where
  "is_str (VStr s) = True"
| "is_str v = False"

fun num_of_nonstr :: "val \<Rightarrow> int option" where
  "num_of_nonstr (VNum n) = Some n"
| "num_of_nonstr VNull = Some 0"
| "num_of_nonstr v = None"

definition js_add :: "val \<Rightarrow> val \<Rightarrow> val" where
  "js_add a b =
     (if is_str a \<or> is_str b then VStr (ToString a @ ToString b)
      else (case (num_of_nonstr a, num_of_nonstr b) of
              (Some x, Some y) \<Rightarrow> VNum (x + y)
            | _ \<Rightarrow> VNaN))"

text \<open>\<open>a === b\<close> on primitives: \<open>NaN\<close> is not equal to itself.\<close>

definition strict_eq :: "val \<Rightarrow> val \<Rightarrow> bool" where
  "strict_eq a b = (a = b \<and> a \<noteq> VNaN)"

subsection \<open>\<open>JSON.stringify\<close>\<close>

text \<open>
  A JavaScript value as a literal argument of a query node carries it: a primitive, a
  function (known by its identity only), an array, or an object as the list of its own
  enumerable properties in enumeration order.
\<close>

datatype jsval =
    JUndefined | JNull | JBool bool | JNum int | JNaN | JStr string
  | JFunction nat
  | JArr "jsval list"
  | JObj "(string \<times> jsval) list"

definition hex2 :: "nat \<Rightarrow> string" where
  "hex2 n = [digit_char (n div 16), digit_char (n mod 16)]"

text \<open>\<open>QuoteJSONString\<close>: the escapes of a string literal of JSON.\<close>

definition json_escape :: "char \<Rightarrow> string" where
  "json_escape c =
     (if c = CHR 0x22 then [CHR 0x5C, CHR 0x22]
      else if c = CHR 0x5C then [CHR 0x5C, CHR 0x5C]
      else if c = CHR 0x08 then [CHR 0x5C, CHR ''b'']
      else if c = CHR 0x09 then [CHR 0x5C, CHR ''t'']
      else if c = CHR 0x0A then [CHR 0x5C, CHR ''n'']
      else if c = CHR 0x0C then [CHR 0x5C, CHR ''f'']
      else if c = CHR 0x0D then [CHR 0x5C, CHR ''r'']
      else if (of_char c :: nat) < 32 then [CHR 0x5C, CHR ''u'', CHR ''0'', CHR ''0''] @ hex2 (of_char c)
      else [c])"

definition json_quote :: "string \<Rightarrow> string" where
  "json_quote s = [CHR 0x22] @ concat (map json_escape s) @ [CHR 0x22]"

fun join :: "string \<Rightarrow> string list \<Rightarrow> string" where
  "join sep [] = []"
| "join sep [x] = x"
| "join sep (x # y # ys) = x @ sep @ join sep (y # ys)"

text \<open>
  \<open>JSON.stringify\<close>; \<open>None\<close> is the result \<open>undefined\<close>, which \<open>undefined\<close> and a
  function give.  Such an element of an array is written \<open>null\<close>, such a property of an
  object is left out; \<open>NaN\<close> is written \<open>null\<close>.
\<close>

fun stringify :: "jsval \<Rightarrow> string option" where
  "stringify JUndefined = None"
| "stringify (JFunction f) = None"
| "stringify JNull = Some ''null''"
| "stringify (JBool b) = Some (if b then ''true'' else ''false'')"
| "stringify (JNum n) = Some (show_int n)"
| "stringify JNaN = Some ''null''"
| "stringify (JStr s) = Some (json_quote s)"
| "stringify (JArr xs) =
     Some (''['' @ join '','' (map (\<lambda>x. case stringify x of None \<Rightarrow> ''null'' | Some t \<Rightarrow> t) xs) @ '']'')"
| "stringify (JObj kvs) =
     Some (''{'' @ join '',''
        (concat (map (\<lambda>kv. case stringify (snd kv) of
                                None \<Rightarrow> []
                              | Some t \<Rightarrow> [json_quote (fst kv) @ '':'' @ t]) kvs)) @ ''}'')"

text \<open>\<open>JSON.stringify\<close> of an array, which always is a string.\<close>

definition stringify_array :: "jsval list \<Rightarrow> string" where
  "stringify_array xs = (case stringify (JArr xs) of None \<Rightarrow> ''undefined'' | Some t \<Rightarrow> t)"

fun js_of_val :: "val \<Rightarrow> jsval" where
  "js_of_val VUndef = JUndefined"
| "js_of_val VNull = JNull"
| "js_of_val VNaN = JNaN"
| "js_of_val (VNum n) = JNum n"
| "js_of_val (VStr s) = JStr s"

subsection \<open>Query expressions\<close>

text \<open>
  Modelled from the spec: a query expression node of \<open>./reltab\<close>, with its operator
  tag, its literal arguments and its child nodes.
\<close>

datatype QueryExp = QueryExp (operator: string) (valArgs: "jsval list") (tableArgs: "QueryExp list")

section \<open>Schemas and tables\<close>

text \<open>
  Modelled from the spec: the metadata of a column (type \<open>ColumnMetadata\<close> of
  \<open>./reltab\<close>), its declared type and its display name.
\<close>

record ColumnMetadata =
  type :: string
  displayName :: string

text \<open>
  Modelled from the spec: class \<open>Schema\<close> of module \<open>./reltab\<close>, which is imported and
  not part of these sources.  A schema is an ordered sequence of column identifiers plus a
  mapping from column identifier to metadata; \<open>new_Schema\<close> is its constructor.
\<close>

record Schema =
  columns :: "string list"
  columnMetadata :: "string \<rightharpoonup> ColumnMetadata"

definition new_Schema :: "string list \<Rightarrow> (string \<rightharpoonup> ColumnMetadata) \<Rightarrow> Schema" where
  "new_Schema cols md = \<lparr>columns = cols, columnMetadata = md\<rparr>"

fun index_of :: "'a list \<Rightarrow> 'a \<Rightarrow> nat option" where
  "index_of [] a = None"
| "index_of (x # xs) a = (if x = a then Some 0 else map_option Suc (index_of xs a))"

text \<open>
  Modelled from the spec: \<open>Schema.columnIndex\<close>, the position lookup by identifier;
  \<open>None\<close> is \<open>undefined\<close>, the result for an identifier that is not a column (the filter
  compiler tests for it).  The spec's identifiers are unique; for a sequence with a repeated
  identifier this model gives the first position.
\<close>

definition columnIndex :: "Schema \<Rightarrow> string \<Rightarrow> nat option" where
  "columnIndex s colId = index_of (columns s) colId"

text \<open>
  Modelled from the spec: \<open>Schema.columnType\<close>, the type lookup by identifier, which reads
  the \<open>type\<close> field of the identifier's metadata; without metadata there is nothing to
  read the field from.
\<close>

definition columnType :: "Schema \<Rightarrow> string \<Rightarrow> error + string" where
  "columnType s colId =
     (case columnMetadata s colId of None \<Rightarrow> Inl TypeError | Some md \<Rightarrow> Inr (type md))"

text \<open>
  Modelled from the spec: \<open>Schema.rowMapFromRow\<close>.  The generator of \<open>extend\<close> receives
  a row addressable both positionally and by column identifier.
\<close>

record RowMap =
  byPosition :: Row
  byColumnId :: "string \<rightharpoonup> val"

definition rowMapFromRow :: "Schema \<Rightarrow> Row \<Rightarrow> RowMap" where
  "rowMapFromRow s row = \<lparr>byPosition = row, byColumnId = map_of (zip (columns s) row)\<rparr>"

text \<open>
  Modelled from the spec: class \<open>TableRep\<close> of \<open>./reltab\<close>, a schema paired with row
  data.
\<close>

record TableRep =
  schema :: Schema
  rowData :: "Row list"

text \<open>A \<open>TableOp\<close> takes the array of sub-tables and produces a table, or throws.\<close>

type_synonym TableOp = "TableRep list \<Rightarrow> error + TableRep"

text \<open>
  \<open>d3a.permute(array, indexes)\<close>: the array of \<open>array[i]\<close> for each index; an index
  that is \<open>undefined\<close> or past the end reads \<open>undefined\<close>.
\<close>

definition permute :: "Row \<Rightarrow> nat option list \<Rightarrow> Row" where
  "permute row indexes =
     map (\<lambda>i. case i of None \<Rightarrow> VUndef
                      | Some k \<Rightarrow> if k < length row then row ! k else VUndef) indexes"

section \<open>project\<close>

fun calcProjectionPermutation :: "Schema \<Rightarrow> string list \<Rightarrow> error + nat option list" where
  "calcProjectionPermutation inSchema [] = Inr []"
| "calcProjectionPermutation inSchema (colId # projectCols) =
     (case columnMetadata inSchema colId of
        None \<Rightarrow> Inl (UnknownColumn colId)
      | Some md \<Rightarrow>
          (case calcProjectionPermutation inSchema projectCols of
             Inl err \<Rightarrow> Inl err
           | Inr perm \<Rightarrow> Inr (columnIndex inSchema colId # perm)))"

definition projectImpl :: "string list \<Rightarrow> TableOp" where
  "projectImpl projectCols subTables =
     (case subTables of
        [] \<Rightarrow> Inl TypeError
      | tableData # rest \<Rightarrow>
          (case calcProjectionPermutation (schema tableData) projectCols of
             Inl err \<Rightarrow> Inl err
           | Inr perm \<Rightarrow>
               Inr \<lparr>schema = new_Schema projectCols (columnMetadata (schema tableData)),
                    rowData = map (\<lambda>row. permute row perm) (rowData tableData)\<rparr>))"

section \<open>Aggregation accumulators\<close>

text \<open>
  \<open>class SumAgg\<close> and \<open>class UniqAgg\<close>: the fields of an object are the arguments of
  its constructor here, \<open>new_SumAgg\<close> and \<open>new_UniqAgg\<close> are the two JavaScript
  constructors, and \<open>mplus\<close>, which mutates the object, returns the updated one.
\<close>

datatype AggAcc = SumAgg (sum': val) | UniqAgg (initial: bool) (str: val)

definition new_SumAgg :: AggAcc where
  "new_SumAgg = SumAgg (VNum 0)"

definition new_UniqAgg :: AggAcc where
  "new_UniqAgg = UniqAgg True VNull"

fun mplus :: "AggAcc \<Rightarrow> val \<Rightarrow> AggAcc" where
  "mplus (SumAgg s) x = (if x \<noteq> VNull then SumAgg (js_add s x) else SumAgg s)"
| "mplus (UniqAgg ini s) v =
     (if ini \<and> v \<noteq> VNull then UniqAgg False v
      else if \<not> strict_eq s v then UniqAgg ini VNull
      else UniqAgg ini s)"

fun finalize :: "AggAcc \<Rightarrow> val" where
  "finalize (SumAgg s) = s"
| "finalize (UniqAgg ini s) = s"

text \<open>Feeding a sequence of values to an accumulator, in order.\<close>

definition feed :: "AggAcc \<Rightarrow> val list \<Rightarrow> AggAcc" where
  "feed acc vs = foldl mplus acc vs"

section \<open>groupBy\<close>

text \<open>
  \<open>defaultAggs\<close> maps a column type to the constructor of its accumulator; the model
  gives the object the constructor returns.
\<close>

definition defaultAggs :: "string \<Rightarrow> AggAcc option" where
  "defaultAggs t =
     (if t = ''integer'' then Some new_SumAgg
      else if t = ''real'' then Some new_SumAgg
      else if t = ''text'' then Some new_UniqAgg
      else None)"

fun mkAggAccs :: "Schema \<Rightarrow> string list \<Rightarrow> error + AggAcc list" where
  "mkAggAccs inSchema [] = Inr []"
| "mkAggAccs inSchema (colId # aggCols) =
     (case columnMetadata inSchema colId of
        None \<Rightarrow> Inl TypeError
      | Some md \<Rightarrow>
          (case defaultAggs (type md) of
             None \<Rightarrow> Inl (UnsupportedAggregation colId)
           | Some accObj \<Rightarrow>
               (case mkAggAccs inSchema aggCols of
                  Inl err \<Rightarrow> Inl err
                | Inr accs \<Rightarrow> Inr (accObj # accs))))"

text \<open>
  \<open>groupMap\<close> is an object used as a dictionary from \<open>keyStr\<close> to \<open>groupRow\<close>; its
  \<open>for ... in\<close> enumeration follows the order in which the keys were first stored (no
  \<open>keyStr\<close> is an array index: each starts with a bracket).  It is an association list
  here: \<open>store_key\<close> replaces the value of a key in place and appends a new key at the end.
  A \<open>groupRow\<close>, the array \<open>keyData.concat(aggAccs)\<close>, is the pair of its two parts.
\<close>

type_synonym groupRow = "Row \<times> AggAcc list"

fun store_key :: "'k \<Rightarrow> 'v \<Rightarrow> ('k \<times> 'v) list \<Rightarrow> ('k \<times> 'v) list" where
  "store_key k v [] = [(k, v)]"
| "store_key k v (p # ps) = (if fst p = k then (k, v) # ps else p # store_key k v ps)"

definition keyStr_of :: "Row \<Rightarrow> string" where
  "keyStr_of keyData = stringify_array (map js_of_val keyData)"

text \<open>The body of the loop over the input rows, for one \<open>inRow\<close>.\<close>

definition group_step ::
  "Schema \<Rightarrow> string list \<Rightarrow> nat option list \<Rightarrow> nat option list \<Rightarrow>
   (string \<times> groupRow) list \<Rightarrow> Row \<Rightarrow> error + (string \<times> groupRow) list" where
  "group_step inSchema aggCols keyPerm aggColsPerm groupMap inRow =
     (let keyData = permute inRow keyPerm;
          aggInData = permute inRow aggColsPerm;
          keyStr = keyStr_of keyData
      in case (case map_of groupMap keyStr of
                 Some groupRow \<Rightarrow> Inr groupRow
               | None \<Rightarrow>
                   (case mkAggAccs inSchema aggCols of
                      Inl err \<Rightarrow> Inl err
                    | Inr aggAccs \<Rightarrow> Inr (keyData, aggAccs))) of
           Inl err \<Rightarrow> Inl err
         | Inr groupRow \<Rightarrow>
             Inr (store_key keyStr (fst groupRow, map2 mplus (snd groupRow) aggInData) groupMap))"

fun group_loop ::
  "Schema \<Rightarrow> string list \<Rightarrow> nat option list \<Rightarrow> nat option list \<Rightarrow>
   (string \<times> groupRow) list \<Rightarrow> Row list \<Rightarrow> error + (string \<times> groupRow) list" where
  "group_loop inSchema aggCols keyPerm aggColsPerm groupMap [] = Inr groupMap"
| "group_loop inSchema aggCols keyPerm aggColsPerm groupMap (inRow # rows) =
     (case group_step inSchema aggCols keyPerm aggColsPerm groupMap inRow of
        Inl err \<Rightarrow> Inl err
      | Inr groupMap' \<Rightarrow> group_loop inSchema aggCols keyPerm aggColsPerm groupMap' rows)"

definition finalize_row :: "groupRow \<Rightarrow> Row" where
  "finalize_row groupRow = fst groupRow @ map finalize (snd groupRow)"

definition groupByImpl :: "string list \<Rightarrow> string list \<Rightarrow> TableOp" where
  "groupByImpl cols aggs subTables =
     (case subTables of
        [] \<Rightarrow> Inl TypeError
      | tableData # rest \<Rightarrow>
          (let inSchema = schema tableData;
               outSchema = new_Schema (cols @ aggs) (columnMetadata inSchema)
           in case calcProjectionPermutation inSchema cols of
                Inl err \<Rightarrow> Inl err
              | Inr keyPerm \<Rightarrow>
                  (case calcProjectionPermutation inSchema aggs of
                     Inl err \<Rightarrow> Inl err
                   | Inr aggColsPerm \<Rightarrow>
                       (case group_loop inSchema aggs keyPerm aggColsPerm [] (rowData tableData) of
                          Inl err \<Rightarrow> Inl err
                        | Inr groupMap \<Rightarrow>
                            Inr \<lparr>schema = outSchema,
                                 rowData = map (\<lambda>kv. finalize_row (snd kv)) groupMap\<rparr>))))"

section \<open>extend\<close>

text \<open>
  The third argument of \<open>extend\<close> is a function of the row map or a constant.
  \<open>_.extend(cMap, inSchema.columnMetadata)\<close> assigns every property of its second
  argument to the first, so an entry of the input schema replaces the entry of \<open>cMap\<close>
  for the same identifier: \<open>m ++ n\<close> is the map \<open>m\<close> overwritten by \<open>n\<close>.
\<close>

datatype ColumnExtendVal = ExtendFn "RowMap \<Rightarrow> val" | ExtendConst val

definition extendImpl :: "string \<Rightarrow> ColumnMetadata \<Rightarrow> ColumnExtendVal \<Rightarrow> TableOp" where
  "extendImpl colId columnMetadata' ev subTables =
     (case subTables of
        [] \<Rightarrow> Inl TypeError
      | tableData # rest \<Rightarrow>
          (let inSchema = schema tableData;
               outCols = columns inSchema @ [colId];
               cMap = Map.empty(colId \<mapsto> columnMetadata');
               outMetadata = cMap ++ columnMetadata inSchema;
               outSchema = new_Schema outCols outMetadata;
               outRows = map (\<lambda>inRow.
                   inRow @ [case ev of
                              ExtendFn f \<Rightarrow> f (rowMapFromRow (schema tableData) inRow)
                            | ExtendConst c \<Rightarrow> c]) (rowData tableData)
           in Inr \<lparr>schema = outSchema, rowData = outRows\<rparr>))"

section \<open>concat\<close>

text \<open>
  \<open>Schema.compatCheck\<close> belongs to \<open>./reltab\<close>; it is a parameter of the model, which
  returns or throws.  The loop of \<open>concatImpl\<close> runs over the sub-tables after the first.
\<close>

type_synonym compatCheck = "Schema \<Rightarrow> Schema \<Rightarrow> error + bool"

fun concat_loop :: "compatCheck \<Rightarrow> TableRep \<Rightarrow> TableRep list \<Rightarrow> error + TableRep" where
  "concat_loop cc res [] = Inr res"
| "concat_loop cc res (tbl # tbls) =
     (case cc (schema res) (schema tbl) of
        Inl err \<Rightarrow> Inl err
      | Inr ok \<Rightarrow> concat_loop cc (res\<lparr>rowData := rowData res @ rowData tbl\<rparr>) tbls)"

definition concatImpl :: "compatCheck \<Rightarrow> QueryExp \<Rightarrow> TableOp" where
  "concatImpl cc qexp subTables =
     (case subTables of
        [] \<Rightarrow> Inl TypeError
      | tbl # tbls \<Rightarrow> concat_loop cc \<lparr>schema = schema tbl, rowData = rowData tbl\<rparr> tbls)"

section \<open>The filter compiler\<close>

text \<open>
  The relational operators of JavaScript on primitives.  Two strings compare by their
  code units; any other pair compares as numbers, and a comparison with \<open>NaN\<close> is
  false.  The number a string denotes (\<open>StringToNumber\<close>, \<open>None\<close> for \<open>NaN\<close>) is a
  parameter \<open>s2n\<close> of the model.
\<close>

fun str_lt :: "string \<Rightarrow> string \<Rightarrow> bool" where
  "str_lt [] [] = False"
| "str_lt [] (y # ys) = True"
| "str_lt (x # xs) [] = False"
| "str_lt (x # xs) (y # ys) =
     ((of_char x :: nat) < of_char y \<or> (x = y \<and> str_lt xs ys))"

fun ToNumber :: "(string \<Rightarrow> int option) \<Rightarrow> val \<Rightarrow> int option" where
  "ToNumber s2n VUndef = None"
| "ToNumber s2n VNull = Some 0"
| "ToNumber s2n VNaN = None"
| "ToNumber s2n (VNum n) = Some n"
| "ToNumber s2n (VStr s) = s2n s"

definition js_lt :: "(string \<Rightarrow> int option) \<Rightarrow> val \<Rightarrow> val \<Rightarrow> bool" where
  "js_lt s2n a b =
     (case (a, b) of
        (VStr s, VStr t) \<Rightarrow> str_lt s t
      | _ \<Rightarrow> (case (ToNumber s2n a, ToNumber s2n b) of
                (Some x, Some y) \<Rightarrow> x < y
              | _ \<Rightarrow> False))"

definition js_le :: "(string \<Rightarrow> int option) \<Rightarrow> val \<Rightarrow> val \<Rightarrow> bool" where
  "js_le s2n a b =
     (case (a, b) of
        (VStr s, VStr t) \<Rightarrow> \<not> str_lt t s
      | _ \<Rightarrow> (case (ToNumber s2n a, ToNumber s2n b) of
                (Some x, Some y) \<Rightarrow> x \<le> y
              | _ \<Rightarrow> False))"

text \<open>
  Modelled from the spec: the filter expressions of \<open>./reltab\<close>.  A sub-expression is
  a relational comparison (\<open>expType\<close> \<open>RelExp\<close>) or a nested combinator (\<open>expType\<close>
  \<open>FilterExp\<close>); \<open>OtherExp\<close> stands for a node of any other \<open>expType\<close>, which the
  compiler rejects.
\<close>

datatype ValExp = ColRef string | ConstVal val

datatype RelOp = EQ | GT | GE | LE | LT

datatype BoolOp = AND | OR

datatype SubExp = RelExp RelOp ValExp ValExp | SubFilterExp FilterExp | OtherExp
  and FilterExp = FilterExp BoolOp "SubExp list"

type_synonym RowPred = "Row \<Rightarrow> bool"
type_synonym RowEval = "Row \<Rightarrow> val"

text \<open>\<open>row[idx]\<close>\<close>

definition cell :: "Row \<Rightarrow> nat \<Rightarrow> val" where
  "cell row idx = (if idx < length row then row ! idx else VUndef)"

definition compileAccessor :: "Schema \<Rightarrow> ValExp \<Rightarrow> error + RowEval" where
  "compileAccessor sch vexp =
     (case vexp of
        ColRef colName \<Rightarrow>
          (case columnIndex sch colName of
             None \<Rightarrow> Inl (UnknownColumn colName)
           | Some idx \<Rightarrow> Inr (\<lambda>row. cell row idx))
      | ConstVal v \<Rightarrow> Inr (\<lambda>row. v))"

fun relOpFnMap :: "(string \<Rightarrow> int option) \<Rightarrow> RelOp \<Rightarrow> val \<Rightarrow> val \<Rightarrow> bool" where
  "relOpFnMap s2n EQ l r = strict_eq l r"
| "relOpFnMap s2n GT l r = js_lt s2n r l"
| "relOpFnMap s2n GE l r = js_le s2n r l"
| "relOpFnMap s2n LE l r = js_le s2n l r"
| "relOpFnMap s2n LT l r = js_lt s2n l r"

definition compileRelOp ::
  "(string \<Rightarrow> int option) \<Rightarrow> Schema \<Rightarrow> RelOp \<Rightarrow> ValExp \<Rightarrow> ValExp \<Rightarrow> error + RowPred" where
  "compileRelOp s2n sch op lhs rhs =
     (case compileAccessor sch lhs of
        Inl err \<Rightarrow> Inl err
      | Inr lhsef \<Rightarrow>
          (case compileAccessor sch rhs of
             Inl err \<Rightarrow> Inl err
           | Inr rhsef \<Rightarrow> Inr (\<lambda>row. relOpFnMap s2n op (lhsef row) (rhsef row))))"

definition compileOrExp :: "SubExp list \<Rightarrow> error + RowPred" where
  "compileOrExp argExps = Inl NotImplemented"

text \<open>\<open>compileArgs\<close> is \<open>argExps.map(compileSubExp)\<close>.\<close>

fun compileSubExp :: "(string \<Rightarrow> int option) \<Rightarrow> Schema \<Rightarrow> SubExp \<Rightarrow> error + RowPred"
  and compileArgs :: "(string \<Rightarrow> int option) \<Rightarrow> Schema \<Rightarrow> SubExp list \<Rightarrow> error + RowPred list"
  and compileAndExp :: "(string \<Rightarrow> int option) \<Rightarrow> Schema \<Rightarrow> SubExp list \<Rightarrow> error + RowPred"
  and compileExp :: "(string \<Rightarrow> int option) \<Rightarrow> Schema \<Rightarrow> FilterExp \<Rightarrow> error + RowPred" where
  "compileSubExp s2n sch (RelExp op lhs rhs) = compileRelOp s2n sch op lhs rhs"
| "compileSubExp s2n sch (SubFilterExp fe) = compileExp s2n sch fe"
| "compileSubExp s2n sch OtherExp = Inl UnknownExprType"
| "compileArgs s2n sch [] = Inr []"
| "compileArgs s2n sch (se # ses) =
     (case compileSubExp s2n sch se of
        Inl err \<Rightarrow> Inl err
      | Inr acf \<Rightarrow>
          (case compileArgs s2n sch ses of
             Inl err \<Rightarrow> Inl err
           | Inr argCFs \<Rightarrow> Inr (acf # argCFs)))"
| "compileAndExp s2n sch argExps =
     (case compileArgs s2n sch argExps of
        Inl err \<Rightarrow> Inl err
      | Inr argCFs \<Rightarrow> Inr (\<lambda>row. list_all (\<lambda>acf. acf row) argCFs))"
| "compileExp s2n sch (FilterExp op opArgs) =
     (if op = AND then compileAndExp s2n sch opArgs else compileOrExp opArgs)"

definition compileFilterExp ::
  "(string \<Rightarrow> int option) \<Rightarrow> Schema \<Rightarrow> FilterExp \<Rightarrow> error + RowPred" where
  "compileFilterExp s2n sch fexp = compileExp s2n sch fexp"

definition filterImpl :: "(string \<Rightarrow> int option) \<Rightarrow> FilterExp \<Rightarrow> TableOp" where
  "filterImpl s2n fexp subTables =
     (case subTables of
        [] \<Rightarrow> Inl TypeError
      | tableData # rest \<Rightarrow>
          (case compileFilterExp s2n (schema tableData) fexp of
             Inl err \<Rightarrow> Inl err
           | Inr evalFilterExp \<Rightarrow>
               Inr \<lparr>schema = schema tableData,
                    rowData = filter evalFilterExp (rowData tableData)\<rparr>))"

section \<open>sort\<close>

text \<open>
  The result of a comparison function is a number: \<open>None\<close> is \<open>NaN\<close>.  A row
  comparison can throw, when the value comparison function it was built with is
  \<open>undefined\<close> (no entry of \<open>cmpFnMap\<close> for the column type): the call of a
  non-function is a \<open>TypeError\<close>.  \<open>reverseArgs\<close> of \<open>undefined\<close> is a function
  that throws it when called, so it is \<open>undefined\<close> here as well.
\<close>

type_synonym ValCmpFn = "val \<Rightarrow> val \<Rightarrow> int option"
type_synonym RowCmpFn = "Row \<Rightarrow> Row \<Rightarrow> error + int option"

definition strcmp :: "(string \<Rightarrow> int option) \<Rightarrow> ValCmpFn" where
  "strcmp s2n s1 s2 = (if js_lt s2n s1 s2 then Some (- 1) else if js_lt s2n s2 s1 then Some 1 else Some 0)"

definition numcmp :: "(string \<Rightarrow> int option) \<Rightarrow> ValCmpFn" where
  "numcmp s2n i1 i2 =
     (case (ToNumber s2n i1, ToNumber s2n i2) of
        (Some x, Some y) \<Rightarrow> Some (x - y)
      | _ \<Rightarrow> None)"

definition cmpFnMap :: "(string \<Rightarrow> int option) \<Rightarrow> string \<Rightarrow> ValCmpFn option" where
  "cmpFnMap s2n t =
     (if t = ''text'' then Some (strcmp s2n)
      else if t = ''integer'' then Some (numcmp s2n)
      else if t = ''real'' then Some (numcmp s2n)
      else None)"

definition cell_at :: "Row \<Rightarrow> nat option \<Rightarrow> val" where
  "cell_at row idx = (case idx of None \<Rightarrow> VUndef | Some k \<Rightarrow> cell row k)"

definition mkRowCompFn :: "ValCmpFn option \<Rightarrow> nat option \<Rightarrow> RowCmpFn \<Rightarrow> RowCmpFn" where
  "mkRowCompFn valCmpFn idx nextFunc =
     (\<lambda>rowa rowb.
        case valCmpFn of
          None \<Rightarrow> Inl TypeError
        | Some f \<Rightarrow>
            (let ret = f (cell_at rowa idx) (cell_at rowb idx)
             in if ret = Some 0 then nextFunc rowa rowb else Inr ret))"

definition reverseArgs :: "ValCmpFn option \<Rightarrow> ValCmpFn option" where
  "reverseArgs cfn = map_option (\<lambda>f v1 v2. f v2 v1) cfn"

text \<open>
  The loop of \<open>compileSortFunc\<close> runs from the last key to the first, each step
  wrapping the comparison built so far: the recursion returns from the last key first.
\<close>

fun compileSortFunc ::
  "(string \<Rightarrow> int option) \<Rightarrow> Schema \<Rightarrow> (string \<times> bool) list \<Rightarrow> error + RowCmpFn" where
  "compileSortFunc s2n sch [] = Inr (\<lambda>rowa rowb. Inr (Some 0))"
| "compileSortFunc s2n sch (key # keys) =
     (case compileSortFunc s2n sch keys of
        Inl err \<Rightarrow> Inl err
      | Inr rowCmpFn \<Rightarrow>
          (let colId = fst key; asc = snd key; idx = columnIndex sch colId
           in case columnType sch colId of
                Inl err \<Rightarrow> Inl err
              | Inr colType \<Rightarrow>
                  (let valCmpFn = cmpFnMap s2n colType;
                       valCmpFn = (if \<not> asc then reverseArgs valCmpFn else valCmpFn)
                   in Inr (mkRowCompFn valCmpFn idx rowCmpFn))))"

text \<open>
  \<open>outRows.sort(rsf)\<close> is the builtin \<open>Array.prototype.sort\<close>.  ECMAScript (since
  its 2019 edition) fixes the result only for a consistent comparison function (the
  stable sorted order) and leaves the order to the implementation for any other.  The
  model is the sort of V8 (Node.js, Chromium), a TimSort.  \<open>SortCompare\<close> calls the
  comparison function and reads \<open>NaN\<close> as 0; an exception of the comparison function
  ends the sort.  For an array of fewer than 64 elements the minimal run length of the
  TimSort is the length of the array, and the sort is \<open>CountAndMakeRun\<close> followed by
  \<open>BinaryInsertionSort\<close>, as below.  A longer array V8 cuts into runs that it sorts
  in this way and then merges; the model sorts it as one run, which gives the same array
  when the comparison function is consistent, the result then being the one ECMAScript
  fixes.
\<close>

definition SortCompare :: "RowCmpFn \<Rightarrow> Row \<Rightarrow> Row \<Rightarrow> error + int" where
  "SortCompare comparefn x y =
     (case comparefn x y of
        Inl err \<Rightarrow> Inl err
      | Inr v \<Rightarrow> Inr (case v of None \<Rightarrow> 0 | Some k \<Rightarrow> k))"

text \<open>
  \<open>CountAndMakeRun\<close> returns the length of the run at the start of the array, and
  reverses the run when it is descending.  The first two elements decide the direction:
  the run is descending when the second compares below the first.  \<open>run_extent\<close> is
  its loop over the further elements: an ascending run ends before an element that
  compares below its predecessor, a descending run before one that does not.
\<close>

fun run_extent :: "RowCmpFn \<Rightarrow> bool \<Rightarrow> Row \<Rightarrow> Row list \<Rightarrow> error + nat" where
  "run_extent cmp isDescending previousElement [] = Inr 0"
| "run_extent cmp isDescending previousElement (currentElement # rest) =
     (case SortCompare cmp currentElement previousElement of
        Inl err \<Rightarrow> Inl err
      | Inr order \<Rightarrow>
          (if (if isDescending then 0 \<le> order else order < 0) then Inr 0
           else (case run_extent cmp isDescending currentElement rest of
                   Inl err \<Rightarrow> Inl err
                 | Inr n \<Rightarrow> Inr (Suc n))))"

definition CountAndMakeRun :: "RowCmpFn \<Rightarrow> Row list \<Rightarrow> error + (Row list \<times> nat)" where
  "CountAndMakeRun cmp workArray =
     (case workArray of
        elementHigh # elementLow # rest \<Rightarrow>
          (case SortCompare cmp elementLow elementHigh of
             Inl err \<Rightarrow> Inl err
           | Inr order \<Rightarrow>
               (let isDescending = (order < 0)
                in case run_extent cmp isDescending elementLow rest of
                     Inl err \<Rightarrow> Inl err
                   | Inr n \<Rightarrow>
                       (let runLength = 2 + n
                        in Inr (if isDescending
                                then rev (take runLength workArray) @ drop runLength workArray
                                else workArray, runLength))))
      | _ \<Rightarrow> Inr (workArray, length workArray))"

text \<open>
  \<open>BinaryInsertionSort\<close> takes each element from \<open>start\<close> on as the pivot, finds
  its place in the part of the array before it by binary search (\<open>binary_search\<close>,
  the inner loop: the pivot goes before the middle element when it compares below it, and
  after it otherwise), and moves the elements from that place on up by one to put the pivot
  there.  \<open>insertion_loop\<close> is the outer loop, on the part before the pivot and the
  elements from the pivot on.
\<close>

function binary_search :: "RowCmpFn \<Rightarrow> Row list \<Rightarrow> Row \<Rightarrow> nat \<Rightarrow> nat \<Rightarrow> error + nat" where
  "binary_search cmp workArray pivot left right =
     (if left < right then
        (let mid = left + (right - left) div 2
         in case SortCompare cmp pivot (workArray ! mid) of
              Inl err \<Rightarrow> Inl err
            | Inr order \<Rightarrow>
                (if order < 0 then binary_search cmp workArray pivot left mid
                 else binary_search cmp workArray pivot (mid + 1) right))
      else Inr left)"
  by pat_completeness auto
termination
  by (relation "measure (\<lambda>(cmp, workArray, pivot, left, right). right - left)") auto

declare binary_search.simps [simp del]

fun insertion_loop :: "RowCmpFn \<Rightarrow> Row list \<Rightarrow> Row list \<Rightarrow> error + Row list" where
  "insertion_loop cmp run [] = Inr run"
| "insertion_loop cmp run (pivot # rest) =
     (case binary_search cmp run pivot 0 (length run) of
        Inl err \<Rightarrow> Inl err
      | Inr left \<Rightarrow> insertion_loop cmp (take left run @ pivot # drop left run) rest)"

definition BinaryInsertionSort :: "RowCmpFn \<Rightarrow> Row list \<Rightarrow> nat \<Rightarrow> error + Row list" where
  "BinaryInsertionSort cmp workArray start =
     insertion_loop cmp (take start workArray) (drop start workArray)"

text \<open>
  The sort: an array of fewer than two elements is left as it is; the run at the start of
  any other is extended to the whole array by binary insertion.
\<close>

definition array_sort :: "RowCmpFn \<Rightarrow> Row list \<Rightarrow> error + Row list" where
  "array_sort cmp a =
     (if length a < 2 then Inr a
      else (case CountAndMakeRun cmp a of
              Inl err \<Rightarrow> Inl err
            | Inr (workArray, runLength) \<Rightarrow> BinaryInsertionSort cmp workArray runLength))"

text \<open>
  \<open>sortImpl\<close> copies the row array and sorts the copy in place, so the model of it
  keeps the arrays in a store: an address is an index into the store, \<open>slice\<close>
  allocates a new array at the end, and a table refers to its rows by their address.  The
  address of a table always is one of the store; for any other number the model gives a
  \<open>TypeError\<close>.
\<close>

type_synonym store = "Row list list"

record TableRef =
  schema_of :: Schema
  rowData_at :: nat

definition slice :: "store \<Rightarrow> nat \<Rightarrow> store \<times> nat" where
  "slice st a = (st @ [st ! a], length st)"

definition sort_in_place :: "RowCmpFn \<Rightarrow> store \<Rightarrow> nat \<Rightarrow> error + store" where
  "sort_in_place cmp st a =
     (case array_sort cmp (st ! a) of Inl err \<Rightarrow> Inl err | Inr rows \<Rightarrow> Inr (st[a := rows]))"

definition sortImpl ::
  "(string \<Rightarrow> int option) \<Rightarrow> (string \<times> bool) list \<Rightarrow> store \<Rightarrow> TableRef list \<Rightarrow>
   error + (store \<times> TableRef)" where
  "sortImpl s2n sortKeys st subTables =
     (case subTables of
        [] \<Rightarrow> Inl TypeError
      | tableData # rest \<Rightarrow>
          (case compileSortFunc s2n (schema_of tableData) sortKeys of
             Inl err \<Rightarrow> Inl err
           | Inr rsf \<Rightarrow>
               (if rowData_at tableData < length st then
                  (let (st1, outRows) = slice st (rowData_at tableData)
                   in case sort_in_place rsf st1 outRows of
                        Inl err \<Rightarrow> Inl err
                      | Inr st2 \<Rightarrow>
                          Inr (st2, \<lparr>schema_of = schema_of tableData, rowData_at = outRows\<rparr>))
                else Inl TypeError)))"

text \<open>The table a reference denotes in a store.\<close>

definition deref :: "store \<Rightarrow> TableRef \<Rightarrow> TableRep" where
  "deref st t = \<lparr>schema = schema_of t, rowData = st ! rowData_at t\<rparr>"

section \<open>The table source\<close>

datatype 'a promise = Fulfilled 'a | Rejected error

text \<open>
  A promise is modelled by the state it settles in.  \<open>fetch\<close> (\<open>d3f.json\<close>) is a
  parameter: it resolves to the parsed JSON, which is a pair of schema data and row data
  (\<open>TableJson\<close>) or has any other shape (\<open>OtherJson\<close>, on which the destructuring of
  \<open>loadTable\<close> throws inside the handler), or it rejects.  The promise of \<open>loadTable\<close>
  settles with a table or with \<open>undefined\<close>, which is \<open>None\<close>: its rejection handler
  logs the error and returns nothing.
\<close>

datatype jsonData =
    TableJson "string list" "string \<rightharpoonup> ColumnMetadata" "Row list"
  | OtherJson

definition loadTable :: "(string \<Rightarrow> jsonData promise) \<Rightarrow> string \<Rightarrow> TableRep option promise" where
  "loadTable fetch tableName =
     (case fetch tableName of
        Fulfilled jsonData \<Rightarrow>
          (case jsonData of
             TableJson cols md rows \<Rightarrow>
               Fulfilled (Some \<lparr>schema = new_Schema cols md, rowData = rows\<rparr>)
           | OtherJson \<Rightarrow> Rejected TypeError)
      | Rejected err \<Rightarrow> Fulfilled None)"

text \<open>\<open>tableRefImpl\<close> reads and updates the global \<open>tableCache\<close>, which it is passed and returns.\<close>

definition tableRefImpl ::
  "(string \<Rightarrow> jsonData promise) \<Rightarrow> (string \<rightharpoonup> TableRep option promise) \<Rightarrow> string \<Rightarrow>
   TableRep option promise \<times> (string \<rightharpoonup> TableRep option promise)" where
  "tableRefImpl fetch tableCache tableName =
     (case tableCache tableName of
        None \<Rightarrow> (let tcp = loadTable fetch tableName in (tcp, tableCache(tableName \<mapsto> tcp)))
      | Some tcp \<Rightarrow> (tcp, tableCache))"

section \<open>The CSE evaluator\<close>

record NumberedExp =
  exp :: QueryExp
  tableNums :: "nat list"

text \<open>
  \<open>class CSEEvaluator\<close>.  \<open>invMap\<close> is an object used as a dictionary (no key is a
  property of \<open>Object.prototype\<close>: each holds a bracket), \<open>promises\<close> an array with
  holes.  The type \<open>'t\<close> is the type of a table.
\<close>

record 't CSEEvaluator =
  invMap :: "string \<rightharpoonup> nat"
  valExps :: "NumberedExp list"
  promises :: "nat \<rightharpoonup> 't promise"

definition new_CSEEvaluator :: "'t CSEEvaluator" where
  "new_CSEEvaluator = \<lparr>invMap = Map.empty, valExps = [], promises = Map.empty\<rparr>"

text \<open>\<open>tableNums.toString()\<close>: the decimal numbers, joined by commas.\<close>

definition nums_toString :: "nat list \<Rightarrow> string" where
  "nums_toString ns = join '','' (map show_nat ns)"

definition expKey_of :: "string \<Rightarrow> nat list \<Rightarrow> jsval list \<Rightarrow> string" where
  "expKey_of opr nums vargs =
     opr @ ''( [ '' @ nums_toString nums @ '' ], '' @ stringify_array vargs @ '' )''"

text \<open>
  \<open>buildCSEMap\<close> mutates the evaluator and returns the value number; the model takes the
  evaluator and returns the pair of both.  \<open>buildCSEMaps\<close> is
  \<open>query.tableArgs.map(e => this.buildCSEMap(e))\<close>, which visits the children from left to
  right.
\<close>

fun buildCSEMap :: "('t, 'z) CSEEvaluator_scheme \<Rightarrow> QueryExp \<Rightarrow> nat \<times> ('t, 'z) CSEEvaluator_scheme"
  and buildCSEMaps :: "('t, 'z) CSEEvaluator_scheme \<Rightarrow> QueryExp list \<Rightarrow> nat list \<times> ('t, 'z) CSEEvaluator_scheme" where
  "buildCSEMap ev (QueryExp opr vargs targs) =
     (case buildCSEMaps ev targs of
        (tnums, ev1) \<Rightarrow>
          (let expKey = expKey_of opr tnums vargs
           in case invMap ev1 expKey of
                None \<Rightarrow>
                  (let numExp = \<lparr>exp = QueryExp opr vargs targs, tableNums = tnums\<rparr>;
                       valNum = length (valExps ev1)
                   in (valNum, ev1\<lparr>valExps := valExps ev1 @ [numExp],
                                    invMap := (invMap ev1)(expKey \<mapsto> valNum)\<rparr>))
              | Some valNum \<Rightarrow> (valNum, ev1)))"
| "buildCSEMaps ev [] = ([], ev)"
| "buildCSEMaps ev (e # es) =
     (case buildCSEMap ev e of
        (n, ev1) \<Rightarrow> (case buildCSEMaps ev1 es of (ns, ev2) \<Rightarrow> (n # ns, ev2)))"

text \<open>
  The invocations of \<open>buildCSEMap\<close> that its invocation on a query makes, the
  invocation itself being the last, each with the value number it returns: the children
  are visited from left to right, each in the evaluator its predecessor left.
\<close>

fun calls :: "('t, 'z) CSEEvaluator_scheme \<Rightarrow> QueryExp \<Rightarrow> (QueryExp \<times> nat) list"
  and callss :: "('t, 'z) CSEEvaluator_scheme \<Rightarrow> QueryExp list \<Rightarrow> (QueryExp \<times> nat) list" where
  "calls ev (QueryExp opr vargs targs) =
     callss ev targs @ [(QueryExp opr vargs targs, fst (buildCSEMap ev (QueryExp opr vargs targs)))]"
| "callss ev [] = []"
| "callss ev (e # es) = calls ev e @ callss (snd (buildCSEMap ev e)) es"

text \<open>
  \<open>evalBaseExp\<close> and \<open>evalInteriorExp\<close> look the operator of a node up in
  \<open>baseOpImplMap\<close> and \<open>simpleOpImplMap\<close>, throw when there is no entry, and apply the
  implementation to the literal arguments of the node (and to the sub-tables).  The only
  entry of \<open>baseOpImplMap\<close> is the table source, under \<open>table\<close>.  The table source
  (which returns the promise of a table, or throws) and \<open>simpleOpImplMap\<close>, the operator
  library (each operator returns a table or throws), are parameters of the model; the
  type \<open>'t\<close> is the type of a table.
\<close>

type_synonym 't tableSource = "jsval list \<Rightarrow> error + 't promise"
type_synonym 't opImplMap = "string \<Rightarrow> (jsval list \<Rightarrow> 't list \<Rightarrow> error + 't) option"

definition baseOpImplMap :: "'t tableSource \<Rightarrow> string \<Rightarrow> 't tableSource option" where
  "baseOpImplMap tableRef opr = (if opr = ''table'' then Some tableRef else None)"

definition evalBaseExp :: "'t tableSource \<Rightarrow> QueryExp \<Rightarrow> error + 't promise" where
  "evalBaseExp tableRef e =
     (case baseOpImplMap tableRef (operator e) of
        None \<Rightarrow> Inl (UnknownOperator (operator e))
      | Some opImpl \<Rightarrow> opImpl (valArgs e))"

definition evalInteriorExp :: "'t opImplMap \<Rightarrow> QueryExp \<Rightarrow> 't list \<Rightarrow> error + 't" where
  "evalInteriorExp simpleOpImplMap e subTables =
     (case simpleOpImplMap (operator e) of
        None \<Rightarrow> Inl (UnknownOperator (operator e))
      | Some opImpl \<Rightarrow> opImpl (valArgs e) subTables)"

text \<open>
  Evaluation.  A promise being the state it settles in,
  \<open>Promise.all(subTables).then(...)\<close> runs its handler on the tables when every
  sub-table promise is fulfilled and is rejected otherwise (with the rejection of the first
  such child, in the model), and an exception of the handler rejects it.

  \<open>executed\<close> is the execution counter: the value numbers whose node was executed, by a
  call of \<open>evalBaseExp\<close> or of \<open>evalInteriorExp\<close>, in the order of the calls.  It is
  not a field of the class.
\<close>

record 't Session = "'t CSEEvaluator" +
  executed :: "nat list"

definition new_Session :: "'t Session" where
  "new_Session = \<lparr>invMap = Map.empty, valExps = [], promises = Map.empty, executed = []\<rparr>"

fun all_settled :: "'t promise list \<Rightarrow> error + 't list" where
  "all_settled [] = Inr []"
| "all_settled (Rejected err # ps) = Inl err"
| "all_settled (Fulfilled t # ps) =
     (case all_settled ps of Inl err \<Rightarrow> Inl err | Inr ts \<Rightarrow> Inr (t # ts))"

text \<open>
  \<open>numExp.tableNums.map(tid => this.evalTable(tid))\<close>, for an \<open>evalTable\<close> that
  returns its result (a promise, or the exception it throws) with the evaluator it leaves,
  or does not return (\<open>None\<close>).
\<close>

fun map_evalTable ::
  "('s \<Rightarrow> nat \<Rightarrow> ((error + 'p) \<times> 's) option) \<Rightarrow> 's \<Rightarrow> nat list \<Rightarrow> ((error + 'p list) \<times> 's) option" where
  "map_evalTable f ev [] = Some (Inr [], ev)"
| "map_evalTable f ev (tid # tids) =
     (case f ev tid of
        None \<Rightarrow> None
      | Some (Inl err, ev1) \<Rightarrow> Some (Inl err, ev1)
      | Some (Inr p, ev1) \<Rightarrow>
          (case map_evalTable f ev1 tids of
             None \<Rightarrow> None
           | Some (Inl err, ev2) \<Rightarrow> Some (Inl err, ev2)
           | Some (Inr ps, ev2) \<Rightarrow> Some (Inr (p # ps), ev2)))"

text \<open>
  \<open>evalTable\<close> recurses into the sub-tables of a node and need not return for an
  arbitrary \<open>valExps\<close>; the first argument after the parameters bounds the depth of the
  recursion, and \<open>None\<close> is the result when the bound is reached.
\<close>

primrec evalTable ::
  "'t tableSource \<Rightarrow> 't opImplMap \<Rightarrow> nat \<Rightarrow>
   't Session \<Rightarrow> nat \<Rightarrow> ((error + 't promise) \<times> 't Session) option" where
  "evalTable tableRef simpleOpImplMap 0 ev tableId = None"
| "evalTable tableRef simpleOpImplMap (Suc fuel) ev tableId =
     (case promises ev tableId of
        Some resp \<Rightarrow> Some (Inr resp, ev)
      | None \<Rightarrow>
          (if tableId < length (valExps ev) then
             (let numExp = valExps ev ! tableId in
              if 0 < length (tableNums numExp) then
                (case map_evalTable (evalTable tableRef simpleOpImplMap fuel) ev (tableNums numExp) of
                   None \<Rightarrow> None
                 | Some (Inl err, ev1) \<Rightarrow> Some (Inl err, ev1)
                 | Some (Inr subTables, ev1) \<Rightarrow>
                     (case all_settled subTables of
                        Inl err \<Rightarrow>
                          Some (Inr (Rejected err),
                                ev1\<lparr>promises := (promises ev1)(tableId \<mapsto> Rejected err)\<rparr>)
                      | Inr tvals \<Rightarrow>
                          (let resp = (case evalInteriorExp simpleOpImplMap (exp numExp) tvals of
                                         Inl err \<Rightarrow> Rejected err
                                       | Inr t \<Rightarrow> Fulfilled t)
                           in Some (Inr resp,
                                    ev1\<lparr>promises := (promises ev1)(tableId \<mapsto> resp),
                                        executed := executed ev1 @ [tableId]\<rparr>))))
              else
                (case evalBaseExp tableRef (exp numExp) of
                   Inl err \<Rightarrow> Some (Inl err, ev\<lparr>executed := executed ev @ [tableId]\<rparr>)
                 | Inr resp \<Rightarrow>
                     Some (Inr resp,
                           ev\<lparr>promises := (promises ev)(tableId \<mapsto> resp),
                              executed := executed ev @ [tableId]\<rparr>)))
           else Some (Inl TypeError, ev)))"

definition localEvalQuery ::
  "'t tableSource \<Rightarrow> 't opImplMap \<Rightarrow> nat \<Rightarrow>
   QueryExp \<Rightarrow> ((error + 't promise) \<times> 't Session) option" where
  "localEvalQuery tableRef simpleOpImplMap fuel query =
     (case buildCSEMap new_Session query of
        (tableId, evaluator) \<Rightarrow> evalTable tableRef simpleOpImplMap fuel evaluator tableId)"

section \<open>Well-formed tables\<close>

text \<open>
  The invariants of the data model: the column identifiers of a schema are unique and each
  has an entry in the metadata mapping, and every row is aligned with the columns.
\<close>

definition wf_schema :: "Schema \<Rightarrow> bool" where
  "wf_schema s = (distinct (columns s) \<and> list_all (\<lambda>c. columnMetadata s c \<noteq> None) (columns s))"

definition wf_table :: "TableRep \<Rightarrow> bool" where
  "wf_table t = (wf_schema (schema t) \<and> list_all (\<lambda>row. length row = length (columns (schema t))) (rowData t))"

section \<open>The grouping the spec describes\<close>

text \<open>
  The rows of a list that are the first with their key, for a key function \<open>kf\<close>, in
  their order: one row per distinct key, in the order in which the keys are first
  encountered.
\<close>

fun first_by :: "('a \<Rightarrow> 'k) \<Rightarrow> 'a list \<Rightarrow> 'a list" where
  "first_by kf [] = []"
| "first_by kf (x # xs) = x # filter (\<lambda>y. kf y \<noteq> kf x) (first_by kf xs)"

text \<open>The cells of a row at the columns \<open>cols\<close>, and the canonical encoding of the key of a row.\<close>

definition cells_at :: "Schema \<Rightarrow> string list \<Rightarrow> Row \<Rightarrow> Row" where
  "cells_at s cols row = map (\<lambda>c. cell_at row (columnIndex s c)) cols"

definition key_encoding :: "Schema \<Rightarrow> string list \<Rightarrow> Row \<Rightarrow> string" where
  "key_encoding s cols row = keyStr_of (cells_at s cols row)"

text \<open>
  The output row of the group of the row \<open>r\<close>: the key values of \<open>r\<close>, followed, for each
  aggregate column, by the finalized accumulator of the column (\<open>accs\<close> holds the new
  accumulator of each) after it was fed the cells of the column of the rows of the group
  in row order.
\<close>

definition group_row :: "Schema \<Rightarrow> string list \<Rightarrow> string list \<Rightarrow> AggAcc list \<Rightarrow> Row list \<Rightarrow> Row \<Rightarrow> Row" where
  "group_row s cols aggs accs rows r =
     cells_at s cols r @
     map2 (\<lambda>acc c. finalize (feed acc
             (map (\<lambda>r'. cell_at r' (columnIndex s c))
                (filter (\<lambda>r'. key_encoding s cols r' = key_encoding s cols r) rows))))
        accs aggs"

definition groupBy_spec :: "Schema \<Rightarrow> string list \<Rightarrow> string list \<Rightarrow> AggAcc list \<Rightarrow> Row list \<Rightarrow> Row list" where
  "groupBy_spec s cols aggs accs rows =
     map (group_row s cols aggs accs rows) (first_by (key_encoding s cols) rows)"

text \<open>
  The loop of \<open>groupByImpl\<close> in general form, for the proof: a step stores, under the
  key of a row, the update by the row of the value stored under the key, or of the initial
  value of the row when there is none; \<open>gspec\<close> is the dictionary the loop builds from
  the empty one.  \<open>group_init\<close> and \<open>group_upd\<close> are the initial value and the update
  of \<open>groupByImpl\<close>.
\<close>

definition gstep :: "('a \<Rightarrow> 'k) \<Rightarrow> ('a \<Rightarrow> 'v) \<Rightarrow> ('v \<Rightarrow> 'a \<Rightarrow> 'v) \<Rightarrow> ('k \<times> 'v) list \<Rightarrow> 'a \<Rightarrow> ('k \<times> 'v) list" where
  "gstep kf init upd g r =
     store_key (kf r) (upd (case map_of g (kf r) of Some v \<Rightarrow> v | None \<Rightarrow> init r) r) g"

definition gspec :: "('a \<Rightarrow> 'k) \<Rightarrow> ('a \<Rightarrow> 'v) \<Rightarrow> ('v \<Rightarrow> 'a \<Rightarrow> 'v) \<Rightarrow> 'a list \<Rightarrow> ('k \<times> 'v) list" where
  "gspec kf init upd rows =
     map (\<lambda>r1. (kf r1, foldl upd (init r1) (filter (\<lambda>r'. kf r' = kf r1) rows))) (first_by kf rows)"

definition group_init :: "Schema \<Rightarrow> string list \<Rightarrow> AggAcc list \<Rightarrow> Row \<Rightarrow> groupRow" where
  "group_init s cols accs r = (cells_at s cols r, accs)"

definition group_upd :: "Schema \<Rightarrow> string list \<Rightarrow> groupRow \<Rightarrow> Row \<Rightarrow> groupRow" where
  "group_upd s aggs gr r = (fst gr, map2 mplus (snd gr) (cells_at s aggs r))"

section \<open>The order of a comparison function\<close>

text \<open>
  \<open>a\<close> sorts after \<open>b\<close> when the comparison function returns a number greater than 0
  for \<open>(a, b)\<close>, before \<open>b\<close> when it returns a number less than 0, and the two
  compare equal when it returns 0.  None of the three holds when it returns \<open>NaN\<close> or
  throws.
\<close>

definition sorts_after :: "RowCmpFn \<Rightarrow> Row \<Rightarrow> Row \<Rightarrow> bool" where
  "sorts_after cmp a b = (case cmp a b of Inl err \<Rightarrow> False | Inr c \<Rightarrow> (case c of None \<Rightarrow> False | Some k \<Rightarrow> 0 < k))"

definition sorts_before :: "RowCmpFn \<Rightarrow> Row \<Rightarrow> Row \<Rightarrow> bool" where
  "sorts_before cmp a b = (case cmp a b of Inl err \<Rightarrow> False | Inr c \<Rightarrow> (case c of None \<Rightarrow> False | Some k \<Rightarrow> k < 0))"

definition sorts_equal :: "RowCmpFn \<Rightarrow> Row \<Rightarrow> Row \<Rightarrow> bool" where
  "sorts_equal cmp a b = (cmp a b = Inr (Some 0))"

text \<open>The sort keys a schema has a comparison for: a column with metadata of a type in \<open>cmpFnMap\<close>.\<close>

definition sortable :: "(string \<Rightarrow> int option) \<Rightarrow> Schema \<Rightarrow> string \<times> bool \<Rightarrow> bool" where
  "sortable s2n sch key =
     (case columnMetadata sch (fst key) of
        None \<Rightarrow> False
      | Some md \<Rightarrow> cmpFnMap s2n (type md) \<noteq> None)"

text \<open>A comparison function that returns a number, possibly \<open>NaN\<close>, for every pair of rows.\<close>

definition total_cmp :: "RowCmpFn \<Rightarrow> bool" where
  "total_cmp cmp = (\<forall>a b. \<exists>c. cmp a b = Inr c)"

text \<open>
  A consistent comparison function for a set of rows, as ECMAScript defines it: for all
  rows of the set, the function returns a number that is not \<open>NaN\<close>, comparing equal
  is reflexive, symmetric and transitive, and sorting before and sorting after are
  transitive.
\<close>

definition consistent_on :: "RowCmpFn \<Rightarrow> Row set \<Rightarrow> bool" where
  "consistent_on cmp R =
     ((\<forall>a\<in>R. \<forall>b\<in>R. sorts_before cmp a b \<or> sorts_equal cmp a b \<or> sorts_after cmp a b) \<and>
      (\<forall>a\<in>R. sorts_equal cmp a a) \<and>
      (\<forall>a\<in>R. \<forall>b\<in>R. sorts_equal cmp a b \<longrightarrow> sorts_equal cmp b a) \<and>
      (\<forall>a\<in>R. \<forall>b\<in>R. \<forall>c\<in>R. sorts_equal cmp a b \<and> sorts_equal cmp b c \<longrightarrow> sorts_equal cmp a c) \<and>
      (\<forall>a\<in>R. \<forall>b\<in>R. \<forall>c\<in>R. sorts_before cmp a b \<and> sorts_before cmp b c \<longrightarrow> sorts_before cmp a c) \<and>
      (\<forall>a\<in>R. \<forall>b\<in>R. \<forall>c\<in>R. sorts_after cmp a b \<and> sorts_after cmp b c \<longrightarrow> sorts_after cmp a c))"

section \<open>The order of the sort keys\<close>

text \<open>
  The order the spec describes for \<open>sort\<close>: rows are compared by the first key's
  column with the base comparison of the column type (numbers by value, strings
  lexicographically), in the reverse direction when the key is not ascending, and rows
  with the same cell at the column by the next key; rows with the same cells at all key
  columns are equal.  \<open>key_before sch keys a b\<close>: the row \<open>a\<close> comes strictly before
  the row \<open>b\<close> in this order.
\<close>

fun val_less :: "val \<Rightarrow> val \<Rightarrow> bool" where
  "val_less (VNum x) (VNum y) = (x < y)"
| "val_less (VStr s) (VStr t) = str_lt s t"
| "val_less v w = False"

fun key_before :: "Schema \<Rightarrow> (string \<times> bool) list \<Rightarrow> Row \<Rightarrow> Row \<Rightarrow> bool" where
  "key_before sch [] a b = False"
| "key_before sch (key # keys) a b =
     (let va = cell_at a (columnIndex sch (fst key)); vb = cell_at b (columnIndex sch (fst key))
      in if va = vb then key_before sch keys a b
         else if snd key then val_less va vb else val_less vb va)"

text \<open>
  A cell has the type of its column when it is a string and the column is a text column,
  or it is a number and the column is an integer or a real column; \<open>null\<close>,
  \<open>undefined\<close> and \<open>NaN\<close> have the type of no column.  \<open>typed_keys\<close>: the cells
  of a row at the given columns have the types of the columns.
\<close>

definition typed_cell :: "Schema \<Rightarrow> string \<Rightarrow> val \<Rightarrow> bool" where
  "typed_cell sch c v =
     (case columnMetadata sch c of
        None \<Rightarrow> False
      | Some md \<Rightarrow>
          (case v of
             VStr s \<Rightarrow> type md = ''text''
           | VNum n \<Rightarrow> type md = ''integer'' \<or> type md = ''real''
           | _ \<Rightarrow> False))"

definition typed_keys :: "Schema \<Rightarrow> string list \<Rightarrow> Row \<Rightarrow> bool" where
  "typed_keys sch cols row = list_all (\<lambda>c. typed_cell sch c (cell_at row (columnIndex sch c))) cols"

section \<open>Invariants of the CSE evaluator\<close>

text \<open>
  The numbered expressions are well numbered when the sub-tables of each have smaller
  numbers than it has, and the signature map is in bounds when each of its value numbers is
  the index of a numbered expression.
\<close>

definition wf_nums :: "('t, 'z) CSEEvaluator_scheme \<Rightarrow> bool" where
  "wf_nums ev = (\<forall>i<length (valExps ev). \<forall>c\<in>set (tableNums (valExps ev ! i)). c < i)"

definition inv_bound :: "('t, 'z) CSEEvaluator_scheme \<Rightarrow> bool" where
  "inv_bound ev = (\<forall>k n. invMap ev k = Some n \<longrightarrow> n < length (valExps ev))"

text \<open>
  The invariant of the evaluation: no value number was executed twice, and a value number
  with a stored promise is the index of a numbered expression, each of its sub-tables has
  a stored promise, it was executed if and only if the promises of all its sub-tables are
  fulfilled, and its promise is rejected when it was not executed.  \<open>memo_covers\<close>:
  every executed value number has its promise stored.
\<close>

definition eval_inv :: "'t Session \<Rightarrow> bool" where
  "eval_inv ev =
     (distinct (executed ev) \<and>
      (\<forall>n p. promises ev n = Some p \<longrightarrow>
         n < length (valExps ev) \<and>
         (\<forall>c\<in>set (tableNums (valExps ev ! n)). promises ev c \<noteq> None) \<and>
         ((n \<in> set (executed ev)) =
            (\<forall>c\<in>set (tableNums (valExps ev ! n)). \<exists>t'. promises ev c = Some (Fulfilled t'))) \<and>
         (n \<notin> set (executed ev) \<longrightarrow> (\<exists>err. p = Rejected err))))"

definition memo_covers :: "'t Session \<Rightarrow> bool" where
  "memo_covers ev = (set (executed ev) \<subseteq> dom (promises ev))"

text \<open>
  What a request that returns leaves of the evaluator: the numbered expressions and the
  signature map as they were, the promises it found, no promise stored for a value number
  from \<open>b\<close> on, and the invariant.  \<open>eval_ok f tid\<close>: the request \<open>f\<close> of the table
  \<open>tid\<close> returns from every evaluator that satisfies the invariants, leaves it so, and
  has stored the promise it returns.
\<close>

definition eval_step :: "nat \<Rightarrow> 't Session \<Rightarrow> 't Session \<Rightarrow> bool" where
  "eval_step b ev ev' =
     (valExps ev' = valExps ev \<and> invMap ev' = invMap ev \<and>
      (\<forall>n p. promises ev n = Some p \<longrightarrow> promises ev' n = Some p) \<and>
      (\<forall>n\<ge>b. promises ev' n = promises ev n) \<and>
      eval_inv ev')"

definition eval_ok ::
  "('t Session \<Rightarrow> nat \<Rightarrow> ((error + 't promise) \<times> 't Session) option) \<Rightarrow> nat \<Rightarrow> bool" where
  "eval_ok f tid =
     (\<forall>ev. wf_nums ev \<and> eval_inv ev \<and> memo_covers ev \<longrightarrow>
        (\<exists>out ev'. f ev tid = Some (out, ev') \<and> eval_step (Suc tid) ev ev' \<and>
           (\<forall>p. out = Inr p \<longrightarrow> memo_covers ev' \<and> promises ev' tid = Some p)))"

section \<open>Properties of the accumulators\<close>

text \<open>
  C4.  The text agreement accumulator does not ignore every absent value.  An absent value
  that arrives before the first present one is ignored, but one that arrives after a
  present candidate is compared with the candidate and collapses it: the values
  \<open>"a", null\<close> finalize to \<open>null\<close>, although all present values agree, while
  \<open>null, "a"\<close> finalize to \<open>"a"\<close>.  The two examples of the claim hold.
\<close>

theorem UniqAgg_absent_after_candidate:
  "finalize (feed new_UniqAgg [VStr ''a'', VNull]) = VNull
   \<and> finalize (feed new_UniqAgg [VNull, VStr ''a'']) = VStr ''a''
   \<and> finalize (feed new_UniqAgg [VStr ''a'', VStr ''a'', VStr ''a'']) = VStr ''a''
   \<and> finalize (feed new_UniqAgg [VStr ''a'', VStr ''b'']) = VNull"
  by (simp add: feed_def new_UniqAgg_def strict_eq_def)

section \<open>Properties of the filter compiler\<close>

text \<open>
  C8.  A filter expression whose combinator is \<open>OR\<close> does not compile: the compiler
  throws the not-implemented error and returns no row predicate, and so does the filter
  operator on any table, whatever its rows.
\<close>

theorem OR_filter_not_implemented:
  "compileFilterExp s2n sch (FilterExp OR opArgs) = Inl NotImplemented
   \<and> filterImpl s2n (FilterExp OR opArgs) (tableData # rest) = Inl NotImplemented"
  by (simp add: compileFilterExp_def filterImpl_def compileOrExp_def)

section \<open>Properties of concat\<close>

text \<open>
  C10.  The concatenation of the single table \<open>t\<close> is \<open>t\<close>, for every compatibility
  check: the check is not consulted, so that it cannot make the operator fail.
\<close>

theorem concat_single_identity:
  "concatImpl cc qexp [t] = Inr t"
  by (simp add: concatImpl_def)

section \<open>Properties of the table source\<close>

text \<open>
  C9.  When the fetch of a table is rejected, the promise of \<open>loadTable\<close>, which
  \<open>tableRefImpl\<close> returns and caches, is not rejected: it is fulfilled with \<open>undefined\<close>.
\<close>

theorem loadTable_failure_resolves_undefined:
  "loadTable (\<lambda>url. Rejected (External ''fetch failed'')) ''t'' = Fulfilled None
   \<and> fst (tableRefImpl (\<lambda>url. Rejected (External ''fetch failed'')) Map.empty ''t'') = Fulfilled None"
  by (simp add: loadTable_def tableRefImpl_def Let_def)

section \<open>Properties of project\<close>

lemma index_of_nth:
  "distinct xs \<Longrightarrow> i < length xs \<Longrightarrow> index_of xs (xs ! i) = Some i"
proof (induction xs arbitrary: i)
  case Nil
  then show ?case by simp
next
  case (Cons x xs)
  show ?case
  proof (cases i)
    case 0
    then show ?thesis by simp
  next
    case (Suc j)
    with Cons.prems have "xs ! j \<in> set xs" "x \<notin> set xs" by auto
    then have "x \<noteq> xs ! j" by auto
    with Cons Suc show ?thesis by simp
  qed
qed

lemma calcProjectionPermutation_known:
  "list_all (\<lambda>c. columnMetadata s c \<noteq> None) cs \<Longrightarrow>
   calcProjectionPermutation s cs = Inr (map (columnIndex s) cs)"
  by (induction cs) auto

lemma map_index_of_self:
  "distinct xs \<Longrightarrow> map (index_of xs) xs = map Some [0..<length xs]"
  by (rule nth_equalityI) (simp_all add: index_of_nth)

lemma permute_identity:
  "permute row (map Some [0..<length row]) = row"
  by (rule nth_equalityI) (simp_all add: permute_def)

text \<open>
  C7.  On a well-formed table, the projection onto the full column list of the table, in
  its order, returns the table: the same schema and the same rows.
\<close>

theorem project_all_columns_identity:
  assumes "wf_table t"
  shows "projectImpl (columns (schema t)) [t] = Inr t"
proof -
  let ?s = "schema t"
  from assms have d: "distinct (columns ?s)"
    and m: "list_all (\<lambda>c. columnMetadata ?s c \<noteq> None) (columns ?s)"
    and r: "list_all (\<lambda>row. length row = length (columns ?s)) (rowData t)"
    by (simp_all add: wf_table_def wf_schema_def)
  have perm: "calcProjectionPermutation ?s (columns ?s) = Inr (map Some [0..<length (columns ?s)])"
    using calcProjectionPermutation_known [OF m] map_index_of_self [OF d]
    by (simp add: columnIndex_def [abs_def])
  have rows: "map (\<lambda>row. permute row (map Some [0..<length (columns ?s)])) (rowData t) = rowData t"
  proof (rule map_idI)
    fix row assume "row \<in> set (rowData t)"
    with r have "length row = length (columns ?s)" by (simp add: list_all_iff)
    then show "permute row (map Some [0..<length (columns ?s)]) = row"
      using permute_identity [of row] by simp
  qed
  show ?thesis
    by (simp add: projectImpl_def perm rows new_Schema_def)
qed

text \<open>The theorem at a table of two columns and two rows.\<close>

theorem project_all_columns_identity_witness:
  "wf_table \<lparr>schema = new_Schema [''a'', ''b'']
                 [''a'' \<mapsto> \<lparr>type = ''integer'', displayName = ''A''\<rparr>,
                  ''b'' \<mapsto> \<lparr>type = ''text'', displayName = ''B''\<rparr>],
             rowData = [[VNum 1, VStr ''x''], [VNum 2, VNull]]\<rparr>
   \<and> projectImpl [''a'', ''b'']
       [\<lparr>schema = new_Schema [''a'', ''b'']
                 [''a'' \<mapsto> \<lparr>type = ''integer'', displayName = ''A''\<rparr>,
                  ''b'' \<mapsto> \<lparr>type = ''text'', displayName = ''B''\<rparr>],
         rowData = [[VNum 1, VStr ''x''], [VNum 2, VNull]]\<rparr>]
     = Inr \<lparr>schema = new_Schema [''a'', ''b'']
                 [''a'' \<mapsto> \<lparr>type = ''integer'', displayName = ''A''\<rparr>,
                  ''b'' \<mapsto> \<lparr>type = ''text'', displayName = ''B''\<rparr>],
             rowData = [[VNum 1, VStr ''x''], [VNum 2, VNull]]\<rparr>"
proof -
  let ?t = "\<lparr>schema = new_Schema [''a'', ''b'']
                 [''a'' \<mapsto> \<lparr>type = ''integer'', displayName = ''A''\<rparr>,
                  ''b'' \<mapsto> \<lparr>type = ''text'', displayName = ''B''\<rparr>],
             rowData = [[VNum 1, VStr ''x''], [VNum 2, VNull]]\<rparr>"
  have wf: "wf_table ?t"
    by (simp add: wf_table_def wf_schema_def new_Schema_def)
  from project_all_columns_identity [OF wf] wf show ?thesis
    by (simp add: new_Schema_def)
qed

section \<open>Properties of groupBy\<close>

subsection \<open>The first rows of the keys\<close>

lemma set_first_by: "set (first_by kf xs) \<subseteq> set xs"
  by (induction xs) auto

lemma image_filter_neq: "kf ` {y \<in> A. kf y \<noteq> a} = kf ` A - {a}"
  by blast

lemma image_first_by: "kf ` set (first_by kf xs) = kf ` set xs"
proof (induction xs)
  case Nil
  then show ?case by simp
next
  case (Cons x xs)
  have "kf ` set (first_by kf (x # xs)) = insert (kf x) (kf ` set (first_by kf xs) - {kf x})"
    by (simp add: image_filter_neq)
  also have "\<dots> = insert (kf x) (kf ` set xs)"
    using Cons.IH by auto
  finally show ?case by simp
qed

lemma distinct_first_by: "distinct (map kf (first_by kf xs))"
proof (induction xs)
  case Nil
  then show ?case by simp
next
  case (Cons x xs)
  have "distinct (map kf (filter (\<lambda>y. kf y \<noteq> kf x) (first_by kf xs)))"
    using Cons.IH by (simp add: distinct_map_filter)
  then show ?case by auto
qed

lemma first_by_snoc:
  "first_by kf (xs @ [r]) =
     (if kf r \<in> kf ` set xs then first_by kf xs else first_by kf xs @ [r])"
  by (induction xs) auto

subsection \<open>Storing under a key\<close>

lemma store_key_new:
  "k \<notin> fst ` set ps \<Longrightarrow> store_key k v ps = ps @ [(k, v)]"
  by (induction ps) auto

lemma store_key_old:
  "distinct (map fst ps) \<Longrightarrow> k \<in> fst ` set ps \<Longrightarrow>
   store_key k v ps = map (\<lambda>p. if fst p = k then (k, v) else p) ps"
proof (induction ps)
  case Nil
  then show ?case by simp
next
  case (Cons p ps)
  show ?case
  proof (cases "fst p = k")
    case True
    with Cons.prems have "\<forall>q\<in>set ps. fst q \<noteq> k" by (auto simp: image_iff)
    then have "map (\<lambda>p. if fst p = k then (k, v) else p) ps = ps"
      by (simp add: map_idI)
    with True show ?thesis by simp
  next
    case False
    with Cons show ?thesis by auto
  qed
qed

subsection \<open>The generic grouping loop\<close>

lemma gstep_gspec:
  "gstep kf init upd (gspec kf init upd pre) r = gspec kf init upd (pre @ [r])"
proof (cases "kf r \<in> kf ` set pre")
  case False
  have keys: "fst ` set (gspec kf init upd pre) = kf ` set pre"
    by (simp add: gspec_def image_image image_first_by)
  from False keys have none: "map_of (gspec kf init upd pre) (kf r) = None"
    by (simp add: map_of_eq_None_iff)
  have same: "\<And>r1. r1 \<in> set (first_by kf pre) \<Longrightarrow>
      filter (\<lambda>r'. kf r' = kf r1) (pre @ [r]) = filter (\<lambda>r'. kf r' = kf r1) pre"
    using False set_first_by [of kf pre] by (auto simp: image_iff)
  have own: "filter (\<lambda>r'. kf r' = kf r) (pre @ [r]) = [r]"
    using False by (auto simp: filter_empty_conv image_iff)
  have lhs: "gstep kf init upd (gspec kf init upd pre) r =
      gspec kf init upd pre @ [(kf r, upd (init r) r)]"
    using False keys by (simp add: gstep_def none store_key_new)
  have "gspec kf init upd (pre @ [r]) =
      map (\<lambda>r1. (kf r1, foldl upd (init r1) (filter (\<lambda>r'. kf r' = kf r1) (pre @ [r]))))
        (first_by kf pre) @
      [(kf r, foldl upd (init r) (filter (\<lambda>r'. kf r' = kf r) (pre @ [r])))]"
    using False by (simp add: gspec_def first_by_snoc)
  also have "map (\<lambda>r1. (kf r1, foldl upd (init r1) (filter (\<lambda>r'. kf r' = kf r1) (pre @ [r]))))
        (first_by kf pre) = gspec kf init upd pre"
    unfolding gspec_def by (rule map_cong) (simp_all only: same)
  finally show ?thesis
    by (simp only: lhs own) simp
next
  case True
  let ?g = "gspec kf init upd pre"
  have d: "distinct (map fst ?g)"
    using distinct_first_by [of kf pre] by (simp add: gspec_def comp_def)
  have keys: "fst ` set ?g = kf ` set pre"
    by (simp add: gspec_def image_image image_first_by)
  from True keys have "kf r \<in> dom (map_of ?g)"
    by (simp add: dom_map_of_conv_image_fst)
  then obtain v where v: "map_of ?g (kf r) = Some v"
    by blast
  have upd: "gstep kf init upd ?g r = map (\<lambda>p. if fst p = kf r then (kf r, upd v r) else p) ?g"
    using True keys by (simp add: gstep_def v store_key_old [OF d])
  have val: "\<And>r1. r1 \<in> set (first_by kf pre) \<Longrightarrow> kf r1 = kf r \<Longrightarrow>
      foldl upd (init r1) (filter (\<lambda>r'. kf r' = kf r1) pre) = v"
  proof -
    fix r1 assume r1: "r1 \<in> set (first_by kf pre)" and eq: "kf r1 = kf r"
    from r1 have "(kf r1, foldl upd (init r1) (filter (\<lambda>r'. kf r' = kf r1) pre)) \<in> set ?g"
      unfolding gspec_def set_map by (rule imageI)
    with eq have "(kf r, foldl upd (init r1) (filter (\<lambda>r'. kf r' = kf r1) pre)) \<in> set ?g"
      by simp
    with d have "map_of ?g (kf r) = Some (foldl upd (init r1) (filter (\<lambda>r'. kf r' = kf r1) pre))"
      by (rule map_of_is_SomeI)
    with v show "foldl upd (init r1) (filter (\<lambda>r'. kf r' = kf r1) pre) = v"
      by simp
  qed
  have "gspec kf init upd (pre @ [r]) =
      map (\<lambda>r1. (kf r1, foldl upd (init r1) (filter (\<lambda>r'. kf r' = kf r1) (pre @ [r]))))
        (first_by kf pre)"
    using True by (simp add: gspec_def first_by_snoc)
  also have "\<dots> = map ((\<lambda>p. if fst p = kf r then (kf r, upd v r) else p) \<circ>
        (\<lambda>r1. (kf r1, foldl upd (init r1) (filter (\<lambda>r'. kf r' = kf r1) pre))))
        (first_by kf pre)"
  proof (rule map_cong [OF refl])
    fix r1 assume r1: "r1 \<in> set (first_by kf pre)"
    show "(kf r1, foldl upd (init r1) (filter (\<lambda>r'. kf r' = kf r1) (pre @ [r]))) =
        ((\<lambda>p. if fst p = kf r then (kf r, upd v r) else p) \<circ>
         (\<lambda>r1. (kf r1, foldl upd (init r1) (filter (\<lambda>r'. kf r' = kf r1) pre)))) r1"
    proof (cases "kf r1 = kf r")
      case True
      with val [OF r1 True] show ?thesis by simp
    next
      case False
      then have "kf r \<noteq> kf r1" by auto
      with False show ?thesis by simp
    qed
  qed
  also have "\<dots> = map (\<lambda>p. if fst p = kf r then (kf r, upd v r) else p) ?g"
    by (simp add: gspec_def)
  finally show ?thesis
    by (simp only: upd)
qed

lemma foldl_gstep:
  "foldl (gstep kf init upd) (gspec kf init upd pre) rows = gspec kf init upd (pre @ rows)"
proof (induction rows arbitrary: pre)
  case Nil
  then show ?case by simp
next
  case (Cons r rows)
  show ?case using Cons.IH [of "pre @ [r]"] by (simp add: gstep_gspec)
qed


subsection \<open>The loop of the operator\<close>

lemma permute_cells_at: "permute row (map (columnIndex s) cols) = cells_at s cols row"
  by (simp add: permute_def cells_at_def cell_at_def cell_def cong: option.case_cong)

lemma mkAggAccs_known:
  "mkAggAccs s aggs = Inr accs \<Longrightarrow>
   list_all (\<lambda>c. columnMetadata s c \<noteq> None) aggs \<and> length accs = length aggs"
  by (induction aggs arbitrary: accs) (auto split: option.splits sum.splits)

lemma group_step_gstep:
  assumes "mkAggAccs s aggs = Inr accs"
  shows "group_step s aggs (map (columnIndex s) cols) (map (columnIndex s) aggs) g r =
         Inr (gstep (key_encoding s cols) (group_init s cols accs) (group_upd s aggs) g r)"
  using assms
  by (simp add: group_step_def gstep_def permute_cells_at key_encoding_def group_init_def
      group_upd_def Let_def split: option.split)

lemma group_loop_foldl:
  assumes "mkAggAccs s aggs = Inr accs"
  shows "group_loop s aggs (map (columnIndex s) cols) (map (columnIndex s) aggs) g rows =
         Inr (foldl (gstep (key_encoding s cols) (group_init s cols accs) (group_upd s aggs)) g rows)"
  by (induction rows arbitrary: g) (simp_all add: group_step_gstep [OF assms])

lemma foldl_group_upd:
  "foldl (group_upd s aggs) (kd, as) rs =
   (kd, foldl (\<lambda>as r. map2 mplus as (cells_at s aggs r)) as rs)"
  by (induction rs arbitrary: as) (simp_all add: group_upd_def)

lemma map2_feed_Nil:
  "length as = length cs \<Longrightarrow> map2 (\<lambda>acc c. feed acc []) as cs = as"
  by (rule nth_equalityI) (simp_all add: feed_def)

lemma foldl_columns:
  "length as = length cs \<Longrightarrow>
   foldl (\<lambda>as r. map2 mplus as (cells_at s cs r)) as rs =
   map2 (\<lambda>acc c. feed acc (map (\<lambda>r. cell_at r (columnIndex s c)) rs)) as cs"
proof (induction rs arbitrary: as)
  case Nil
  then show ?case by (simp add: map2_feed_Nil)
next
  case (Cons r rs)
  have len: "length (map2 mplus as (cells_at s cs r)) = length cs"
    using Cons.prems by (simp add: cells_at_def)
  have "map2 (\<lambda>acc c. feed acc (map (\<lambda>r. cell_at r (columnIndex s c)) rs))
          (map2 mplus as (cells_at s cs r)) cs =
        map2 (\<lambda>acc c. feed acc (map (\<lambda>r. cell_at r (columnIndex s c)) (r # rs))) as cs"
    using Cons.prems by (intro nth_equalityI) (simp_all add: cells_at_def feed_def)
  with Cons.IH [OF len] show ?case by simp
qed

lemma finalize_row_gspec:
  assumes "length accs = length aggs"
  shows "map (\<lambda>kv. finalize_row (snd kv))
           (gspec (key_encoding s cols) (group_init s cols accs) (group_upd s aggs) rows) =
         groupBy_spec s cols aggs accs rows"
proof -
  have "\<And>r. finalize_row (foldl (group_upd s aggs) (group_init s cols accs r)
            (filter (\<lambda>r'. key_encoding s cols r' = key_encoding s cols r) rows)) =
          group_row s cols aggs accs rows r"
    unfolding group_init_def foldl_group_upd finalize_row_def group_row_def fst_conv snd_conv
      foldl_columns [OF assms]
    by (simp add: split_def)
  then show ?thesis
    by (simp add: gspec_def groupBy_spec_def comp_def)
qed

text \<open>
  C6.  When the key columns are columns the schema has metadata for and the aggregate
  columns have accumulators (\<open>accs\<close>, one new accumulator for each), \<open>groupBy\<close>
  returns the table whose schema lists the key columns followed by the aggregate columns
  and whose rows are the rows of the grouping above: one per distinct key encoding, in the
  order of first encounter, each the key values followed by the finalized accumulators.
\<close>

theorem groupBy_rows:
  assumes "list_all (\<lambda>c. columnMetadata (schema t) c \<noteq> None) cols"
    and "mkAggAccs (schema t) aggs = Inr accs"
  shows "groupByImpl cols aggs (t # rest) =
           Inr \<lparr>schema = new_Schema (cols @ aggs) (columnMetadata (schema t)),
                rowData = groupBy_spec (schema t) cols aggs accs (rowData t)\<rparr>
         \<and> distinct (map (key_encoding (schema t) cols)
               (first_by (key_encoding (schema t) cols) (rowData t)))
         \<and> set (map (key_encoding (schema t) cols)
               (first_by (key_encoding (schema t) cols) (rowData t))) =
             set (map (key_encoding (schema t) cols) (rowData t))"
proof -
  let ?s = "schema t"
  from mkAggAccs_known [OF assms(2)]
  have aggs: "list_all (\<lambda>c. columnMetadata ?s c \<noteq> None) aggs" and len: "length accs = length aggs"
    by simp_all
  have empty: "gspec (key_encoding ?s cols) (group_init ?s cols accs) (group_upd ?s aggs) [] = []"
    by (simp add: gspec_def)
  have loop: "group_loop ?s aggs (map (columnIndex ?s) cols) (map (columnIndex ?s) aggs) [] (rowData t) =
      Inr (gspec (key_encoding ?s cols) (group_init ?s cols accs) (group_upd ?s aggs) (rowData t))"
    using foldl_gstep [of "key_encoding ?s cols" "group_init ?s cols accs" "group_upd ?s aggs" "[]" "rowData t"]
    by (simp add: group_loop_foldl [OF assms(2)] empty)
  have "groupByImpl cols aggs (t # rest) =
           Inr \<lparr>schema = new_Schema (cols @ aggs) (columnMetadata ?s),
                rowData = groupBy_spec ?s cols aggs accs (rowData t)\<rparr>"
    by (simp add: groupByImpl_def calcProjectionPermutation_known [OF assms(1)]
        calcProjectionPermutation_known [OF aggs] loop finalize_row_gspec [OF len] Let_def)
  then show ?thesis
    by (simp add: distinct_first_by image_first_by)
qed

text \<open>
  The theorem at the example of the spec: the rows \<open>(x, 1)\<close>, \<open>(x, 2)\<close>, \<open>(y, 5)\<close>
  grouped by the first column, summing the second, give \<open>(x, 3)\<close> and then \<open>(y, 5)\<close>.
\<close>

theorem groupBy_rows_witness:
  "list_all (\<lambda>c. columnMetadata (new_Schema [''k'', ''v'']
        [''k'' \<mapsto> \<lparr>type = ''text'', displayName = ''K''\<rparr>,
         ''v'' \<mapsto> \<lparr>type = ''integer'', displayName = ''V''\<rparr>]) c \<noteq> None) [''k'']
   \<and> mkAggAccs (new_Schema [''k'', ''v'']
        [''k'' \<mapsto> \<lparr>type = ''text'', displayName = ''K''\<rparr>,
         ''v'' \<mapsto> \<lparr>type = ''integer'', displayName = ''V''\<rparr>]) [''v''] = Inr [new_SumAgg]
   \<and> groupByImpl [''k''] [''v'']
        [\<lparr>schema = new_Schema [''k'', ''v'']
            [''k'' \<mapsto> \<lparr>type = ''text'', displayName = ''K''\<rparr>,
             ''v'' \<mapsto> \<lparr>type = ''integer'', displayName = ''V''\<rparr>],
          rowData = [[VStr ''x'', VNum 1], [VStr ''x'', VNum 2], [VStr ''y'', VNum 5]]\<rparr>]
       = Inr \<lparr>schema = new_Schema [''k'', ''v'']
            [''k'' \<mapsto> \<lparr>type = ''text'', displayName = ''K''\<rparr>,
             ''v'' \<mapsto> \<lparr>type = ''integer'', displayName = ''V''\<rparr>],
          rowData = [[VStr ''x'', VNum 3], [VStr ''y'', VNum 5]]\<rparr>"
proof -
  let ?s = "new_Schema [''k'', ''v'']
        [''k'' \<mapsto> \<lparr>type = ''text'', displayName = ''K''\<rparr>,
         ''v'' \<mapsto> \<lparr>type = ''integer'', displayName = ''V''\<rparr>]"
  let ?rows = "[[VStr ''x'', VNum 1], [VStr ''x'', VNum 2], [VStr ''y'', VNum 5]]"
  let ?t = "\<lparr>schema = ?s, rowData = ?rows\<rparr>"
  have h1: "list_all (\<lambda>c. columnMetadata (schema ?t) c \<noteq> None) [''k'']"
    by (simp add: new_Schema_def)
  have h2: "mkAggAccs (schema ?t) [''v''] = Inr [new_SumAgg]"
    by (simp add: new_Schema_def defaultAggs_def)
  have rows: "groupBy_spec ?s [''k''] [''v''] [new_SumAgg] ?rows = [[VStr ''x'', VNum 3], [VStr ''y'', VNum 5]]"
    by code_simp
  from groupBy_rows [OF h1 h2, of "[]", THEN conjunct1] h1 h2 rows show ?thesis
    by (simp add: new_Schema_def)
qed

section \<open>Properties of sort\<close>

lemma str_lt_irrefl: "\<not> str_lt s s"
  by (induction s) auto

lemma js_lt_irrefl: "\<not> js_lt s2n v v"
  by (cases v) (auto simp: js_lt_def str_lt_irrefl split: option.splits)

lemma strcmp_same: "strcmp s2n v v = Some 0"
  by (simp add: strcmp_def js_lt_irrefl)

lemma numcmp_same: "numcmp s2n v v = Some 0 \<or> numcmp s2n v v = None"
  by (auto simp: numcmp_def split: option.splits)

lemma cmpFnMap_same:
  "cmpFnMap s2n t = Some f \<Longrightarrow> f v v = Some 0 \<or> f v v = None"
  using numcmp_same [of s2n v]
  by (auto simp: cmpFnMap_def strcmp_same split: if_splits)

lemma compileSortFunc_sortable:
  assumes "list_all (sortable s2n sch) keys"
  shows "\<exists>rsf. compileSortFunc s2n sch keys = Inr rsf \<and> total_cmp rsf
     \<and> (\<forall>a b. cells_at sch (map fst keys) a = cells_at sch (map fst keys) b
            \<longrightarrow> rsf a b = Inr (Some 0) \<or> rsf a b = Inr None)"
  using assms
proof (induction keys)
  case Nil
  then show ?case by (simp add: total_cmp_def)
next
  case (Cons key keys)
  then obtain rowCmpFn where r: "compileSortFunc s2n sch keys = Inr rowCmpFn"
    and tot: "total_cmp rowCmpFn"
    and same: "\<And>a b. cells_at sch (map fst keys) a = cells_at sch (map fst keys) b
        \<Longrightarrow> rowCmpFn a b = Inr (Some 0) \<or> rowCmpFn a b = Inr None"
    by auto
  from Cons.prems obtain md f where md: "columnMetadata sch (fst key) = Some md"
    and f: "cmpFnMap s2n (type md) = Some f"
    by (auto simp: sortable_def split: option.splits)
  define g where "g = (if \<not> snd key then (\<lambda>v1 v2. f v2 v1) else f)"
  have vf: "(if \<not> snd key then reverseArgs (cmpFnMap s2n (type md)) else cmpFnMap s2n (type md)) = Some g"
    by (simp add: f g_def reverseArgs_def)
  have gsame: "\<And>v. g v v = Some 0 \<or> g v v = None"
    using cmpFnMap_same [OF f] by (simp add: g_def)
  let ?rsf = "mkRowCompFn (Some g) (columnIndex sch (fst key)) rowCmpFn"
  have eq: "compileSortFunc s2n sch (key # keys) = Inr ?rsf"
    by (simp add: r md columnType_def vf Let_def)
  have tot': "total_cmp ?rsf"
    using tot by (auto simp: total_cmp_def mkRowCompFn_def Let_def)
  have same': "?rsf a b = Inr (Some 0) \<or> ?rsf a b = Inr None"
    if "cells_at sch (map fst (key # keys)) a = cells_at sch (map fst (key # keys)) b" for a b
  proof -
    from that have c: "cell_at a (columnIndex sch (fst key)) = cell_at b (columnIndex sch (fst key))"
      and rest: "cells_at sch (map fst keys) a = cells_at sch (map fst keys) b"
      by (simp_all add: cells_at_def)
    from same [OF rest] gsame [of "cell_at b (columnIndex sch (fst key))"] show ?thesis
      by (auto simp: mkRowCompFn_def c Let_def)
  qed
  from eq tot' same' show ?case by blast
qed

subsection \<open>Consistent comparison functions\<close>

lemma sorts_exclusive:
  "\<not> (sorts_before cmp a b \<and> sorts_equal cmp a b)"
  "\<not> (sorts_before cmp a b \<and> sorts_after cmp a b)"
  "\<not> (sorts_equal cmp a b \<and> sorts_after cmp a b)"
  by (auto simp: sorts_before_def sorts_equal_def sorts_after_def split: sum.splits option.splits)

lemma SortCompare_before:
  assumes "SortCompare cmp a b = Inr k"
  shows "(k < 0) = sorts_before cmp a b"
proof (cases "cmp a b")
  case (Inl err)
  with assms show ?thesis by (simp add: SortCompare_def)
next
  case (Inr v)
  with assms show ?thesis
    by (cases v) (auto simp: SortCompare_def sorts_before_def)
qed

lemma cons_total:
  assumes "consistent_on cmp R" and "a \<in> R" and "b \<in> R"
  shows "sorts_before cmp a b \<or> sorts_equal cmp a b \<or> sorts_after cmp a b"
proof -
  from assms(1) have "\<forall>a\<in>R. \<forall>b\<in>R. sorts_before cmp a b \<or> sorts_equal cmp a b \<or> sorts_after cmp a b"
    unfolding consistent_on_def by (elim conjE)
  with assms(2,3) show ?thesis by blast
qed

lemma cons_refl:
  assumes "consistent_on cmp R" and "a \<in> R"
  shows "sorts_equal cmp a a"
proof -
  from assms(1) have "\<forall>a\<in>R. sorts_equal cmp a a"
    unfolding consistent_on_def by (elim conjE)
  with assms(2) show ?thesis by blast
qed

lemma cons_sym:
  assumes "consistent_on cmp R" and "a \<in> R" and "b \<in> R" and "sorts_equal cmp a b"
  shows "sorts_equal cmp b a"
proof -
  from assms(1) have "\<forall>a\<in>R. \<forall>b\<in>R. sorts_equal cmp a b \<longrightarrow> sorts_equal cmp b a"
    unfolding consistent_on_def by (elim conjE)
  with assms(2-) show ?thesis by blast
qed

lemma cons_equal_trans:
  assumes "consistent_on cmp R" and "a \<in> R" and "b \<in> R" and "c \<in> R"
    and "sorts_equal cmp a b" and "sorts_equal cmp b c"
  shows "sorts_equal cmp a c"
proof -
  from assms(1) have "\<forall>a\<in>R. \<forall>b\<in>R. \<forall>c\<in>R.
      sorts_equal cmp a b \<and> sorts_equal cmp b c \<longrightarrow> sorts_equal cmp a c"
    unfolding consistent_on_def by (elim conjE)
  with assms(2-) show ?thesis by blast
qed

lemma before_trans:
  assumes "consistent_on cmp R" and "a \<in> R" and "b \<in> R" and "c \<in> R"
    and "sorts_before cmp a b" and "sorts_before cmp b c"
  shows "sorts_before cmp a c"
proof -
  from assms(1) have "\<forall>a\<in>R. \<forall>b\<in>R. \<forall>c\<in>R.
      sorts_before cmp a b \<and> sorts_before cmp b c \<longrightarrow> sorts_before cmp a c"
    unfolding consistent_on_def by (elim conjE)
  with assms(2-) show ?thesis by blast
qed

lemma cons_after_trans:
  assumes "consistent_on cmp R" and "a \<in> R" and "b \<in> R" and "c \<in> R"
    and "sorts_after cmp a b" and "sorts_after cmp b c"
  shows "sorts_after cmp a c"
proof -
  from assms(1) have "\<forall>a\<in>R. \<forall>b\<in>R. \<forall>c\<in>R.
      sorts_after cmp a b \<and> sorts_after cmp b c \<longrightarrow> sorts_after cmp a c"
    unfolding consistent_on_def by (elim conjE)
  with assms(2-) show ?thesis by blast
qed

lemma consistent_SortCompare:
  assumes "consistent_on cmp R" and "a \<in> R" and "b \<in> R"
  shows "\<exists>k. SortCompare cmp a b = Inr k"
  using cons_total [OF assms]
  by (auto simp: SortCompare_def sorts_before_def sorts_equal_def sorts_after_def
        split: sum.splits)

lemma before_irrefl:
  assumes "consistent_on cmp R" and "a \<in> R"
  shows "\<not> sorts_before cmp a a"
  using cons_refl [OF assms] sorts_exclusive(1) [of cmp a a] by blast

lemma after_before:
  assumes cons: "consistent_on cmp R" and a: "a \<in> R" and b: "b \<in> R"
  shows "sorts_after cmp a b = sorts_before cmp b a"
proof
  assume ab: "sorts_after cmp a b"
  have "\<not> sorts_equal cmp b a"
  proof
    assume "sorts_equal cmp b a"
    from cons_sym [OF cons b a this] ab sorts_exclusive(3) [of cmp a b] show False by blast
  qed
  moreover have "\<not> sorts_after cmp b a"
  proof
    assume "sorts_after cmp b a"
    from cons_after_trans [OF cons a b a ab this] cons_refl [OF cons a]
      sorts_exclusive(3) [of cmp a a]
    show False by blast
  qed
  ultimately show "sorts_before cmp b a" using cons_total [OF cons b a] by blast
next
  assume ba: "sorts_before cmp b a"
  have "\<not> sorts_equal cmp a b"
  proof
    assume "sorts_equal cmp a b"
    from cons_sym [OF cons a b this] ba sorts_exclusive(1) [of cmp b a] show False by blast
  qed
  moreover have "\<not> sorts_before cmp a b"
  proof
    assume "sorts_before cmp a b"
    from before_trans [OF cons b a b ba this] before_irrefl [OF cons b] show False by blast
  qed
  ultimately show "sorts_after cmp a b" using cons_total [OF cons a b] by blast
qed

lemma not_before_cases:
  assumes cons: "consistent_on cmp R" and a: "a \<in> R" and b: "b \<in> R"
    and nb: "\<not> sorts_before cmp a b"
  shows "sorts_equal cmp a b \<or> sorts_before cmp b a"
  using cons_total [OF cons a b] nb after_before [OF cons a b] by blast

lemma not_before_trans:
  assumes cons: "consistent_on cmp R" and a: "a \<in> R" and b: "b \<in> R" and c: "c \<in> R"
    and ab: "\<not> sorts_before cmp a b" and bc: "\<not> sorts_before cmp b c"
  shows "\<not> sorts_before cmp a c"
proof
  assume ac: "sorts_before cmp a c"
  from not_before_cases [OF cons a b ab] have "sorts_equal cmp a b \<or> sorts_before cmp b a" .
  moreover from not_before_cases [OF cons b c bc] have "sorts_equal cmp b c \<or> sorts_before cmp c b" .
  moreover have False if "sorts_equal cmp a b" "sorts_equal cmp b c"
  proof -
    from cons_equal_trans [OF cons a b c that] ac sorts_exclusive(1) [of cmp a c]
    show False by blast
  qed
  moreover have False if "sorts_equal cmp a b" "sorts_before cmp c b"
  proof -
    from before_trans [OF cons a c b ac that(2)] have "sorts_before cmp a b" .
    with that(1) sorts_exclusive(1) [of cmp a b] show False by blast
  qed
  moreover have False if "sorts_before cmp b a" "sorts_equal cmp b c"
  proof -
    from before_trans [OF cons b a c that(1) ac] have "sorts_before cmp b c" .
    with that(2) sorts_exclusive(1) [of cmp b c] show False by blast
  qed
  moreover have False if "sorts_before cmp b a" "sorts_before cmp c b"
  proof -
    from before_trans [OF cons c b a that(2,1)] have "sorts_before cmp c a" .
    from before_trans [OF cons a c a ac this] before_irrefl [OF cons a] show False by blast
  qed
  ultimately show False by blast
qed

lemma before_not_before:
  assumes cons: "consistent_on cmp R" and a: "a \<in> R" and b: "b \<in> R" and c: "c \<in> R"
    and ab: "sorts_before cmp a b" and cb: "\<not> sorts_before cmp c b"
  shows "sorts_before cmp a c"
proof (rule ccontr)
  assume "\<not> sorts_before cmp a c"
  from not_before_trans [OF cons a c b this cb] ab show False by blast
qed

lemma before_asym:
  assumes cons: "consistent_on cmp R" and a: "a \<in> R" and b: "b \<in> R"
    and ab: "sorts_before cmp a b"
  shows "\<not> sorts_before cmp b a"
proof
  assume "sorts_before cmp b a"
  from before_trans [OF cons a b a ab this] before_irrefl [OF cons a] show False by blast
qed

subsection \<open>The sort returns a permutation\<close>

lemma mset_take_drop: "mset (take n xs) + mset (drop n xs) = mset xs"
proof -
  have "mset (take n xs) + mset (drop n xs) = mset (take n xs @ drop n xs)"
    by (simp only: mset_append)
  also have "\<dots> = mset xs" by (simp only: append_take_drop_id)
  finally show ?thesis .
qed

lemma SortCompare_total:
  assumes "total_cmp cmp"
  shows "\<exists>k. SortCompare cmp a b = Inr k"
proof -
  from assms obtain c where "cmp a b = Inr c" unfolding total_cmp_def by blast
  then show ?thesis by (simp add: SortCompare_def)
qed

lemma run_extent_total:
  assumes "total_cmp cmp"
  shows "\<exists>n. run_extent cmp d prev rest = Inr n"
proof (induction rest arbitrary: prev)
  case Nil
  then show ?case by simp
next
  case (Cons cur rest)
  from SortCompare_total [OF assms] obtain k where k: "SortCompare cmp cur prev = Inr k" by blast
  from Cons [of cur] obtain n where n: "run_extent cmp d cur rest = Inr n" by blast
  show ?case by (simp add: k n)
qed

lemma CountAndMakeRun_total:
  assumes "total_cmp cmp"
  shows "\<exists>w r. CountAndMakeRun cmp a = Inr (w, r) \<and> mset w = mset a"
proof (cases a)
  case Nil
  then show ?thesis by (simp add: CountAndMakeRun_def)
next
  case (Cons x0 a')
  show ?thesis
  proof (cases a')
    case Nil
    with Cons show ?thesis by (simp add: CountAndMakeRun_def)
  next
    case (Cons x1 rest)
    from SortCompare_total [OF assms] obtain k where k: "SortCompare cmp x1 x0 = Inr k" by blast
    from run_extent_total [OF assms] obtain n where n: "run_extent cmp (k < 0) x1 rest = Inr n"
      by blast
    have "mset (rev (take (2 + n) a) @ drop (2 + n) a) = mset a"
      by (simp add: mset_take_drop)
    with \<open>a = x0 # a'\<close> Cons k n show ?thesis
      by (simp add: CountAndMakeRun_def Let_def del: mset_append mset_rev)
  qed
qed

lemma binary_search_total:
  "total_cmp cmp \<Longrightarrow> \<exists>l. binary_search cmp a pivot left right = Inr l"
proof (induction cmp a pivot left right rule: binary_search.induct)
  case (1 cmp a pivot left right)
  show ?case
  proof (cases "left < right")
    case False
    then show ?thesis by (simp add: binary_search.simps [of cmp a pivot left right])
  next
    case True
    define mid where "mid = left + (right - left) div 2"
    from SortCompare_total [OF "1.prems"] obtain k
      where k: "SortCompare cmp pivot (a ! mid) = Inr k" by blast
    show ?thesis
    proof (cases "k < 0")
      case lt: True
      from "1.IH"(1) [OF True mid_def k lt "1.prems"] obtain l
        where "binary_search cmp a pivot left mid = Inr l" by blast
      with True k lt show ?thesis
        by (simp add: binary_search.simps [of cmp a pivot left right] mid_def [symmetric])
    next
      case ge: False
      from "1.IH"(2) [OF True mid_def k ge "1.prems"] obtain l
        where "binary_search cmp a pivot (mid + 1) right = Inr l" by blast
      with True k ge show ?thesis
        by (simp add: binary_search.simps [of cmp a pivot left right] mid_def [symmetric])
    qed
  qed
qed

lemma insertion_loop_total:
  assumes "total_cmp cmp"
  shows "\<exists>ys. insertion_loop cmp run rest = Inr ys \<and> mset ys = mset run + mset rest"
proof (induction rest arbitrary: run)
  case Nil
  then show ?case by simp
next
  case (Cons pivot rest)
  from binary_search_total [OF assms] obtain l
    where l: "binary_search cmp run pivot 0 (length run) = Inr l" by blast
  from Cons [of "take l run @ pivot # drop l run"] obtain ys
    where ys: "insertion_loop cmp (take l run @ pivot # drop l run) rest = Inr ys"
      and m: "mset ys = mset (take l run @ pivot # drop l run) + mset rest"
    by blast
  have "mset (take l run @ pivot # drop l run) = add_mset pivot (mset run)"
    by (simp add: mset_take_drop)
  with m have "mset ys = mset run + mset (pivot # rest)" by simp
  with l ys show ?case by simp
qed

lemma array_sort_total:
  assumes "total_cmp cmp"
  shows "\<exists>ys. array_sort cmp xs = Inr ys \<and> mset ys = mset xs"
proof (cases "length xs < 2")
  case True
  then show ?thesis by (simp add: array_sort_def)
next
  case False
  from CountAndMakeRun_total [OF assms] obtain w r
    where c: "CountAndMakeRun cmp xs = Inr (w, r)" and m: "mset w = mset xs" by blast
  from insertion_loop_total [OF assms] obtain ys
    where i: "insertion_loop cmp (take r w) (drop r w) = Inr ys"
      and mi: "mset ys = mset (take r w) + mset (drop r w)" by blast
  from mi m have "mset ys = mset xs" by (simp add: mset_take_drop)
  with False c i show ?thesis
    by (simp add: array_sort_def BinaryInsertionSort_def)
qed


subsection \<open>The sort orders a consistently compared array, and is stable on it\<close>

lemma run_extent_run:
  assumes cons: "consistent_on cmp R"
  shows "prev \<in> R \<Longrightarrow> set rest \<subseteq> R \<Longrightarrow>
     \<exists>n. run_extent cmp d prev rest = Inr n \<and> n \<le> length rest \<and>
       sorted_wrt (\<lambda>x y. if d then sorts_before cmp y x else \<not> sorts_before cmp y x)
         (prev # take n rest)"
proof (induction rest arbitrary: prev)
  case Nil
  then show ?case by simp
next
  case (Cons cur rest)
  let ?Q = "\<lambda>x y. if d then sorts_before cmp y x else \<not> sorts_before cmp y x"
  from Cons.prems have cur: "cur \<in> R" and rest: "set rest \<subseteq> R" by simp_all
  from consistent_SortCompare [OF cons cur Cons.prems(1)] obtain k
    where k: "SortCompare cmp cur prev = Inr k" by blast
  from SortCompare_before [OF k] have kb: "(k < 0) = sorts_before cmp cur prev" .
  show ?case
  proof (cases "if d then 0 \<le> k else k < 0")
    case True
    then have "run_extent cmp d prev (cur # rest) = Inr 0"
      by (simp add: k)
    then show ?thesis by simp
  next
    case False
    from Cons.IH [OF cur rest] obtain n where n: "run_extent cmp d cur rest = Inr n"
      and le: "n \<le> length rest" and s: "sorted_wrt ?Q (cur # take n rest)"
      by blast
    from False have e: "run_extent cmp d prev (cur # rest) = Inr (Suc n)"
      by (simp add: k n)
    from False kb have q: "?Q prev cur" by (auto split: if_splits)
    have "?Q prev y" if y: "y \<in> set (take n rest)" for y
    proof -
      from y rest have yr: "y \<in> R" by (auto dest: in_set_takeD)
      from s y have cy: "?Q cur y" by simp
      show ?thesis
      proof (cases d)
        case True
        with q cy have "sorts_before cmp y cur" "sorts_before cmp cur prev" by simp_all
        from before_trans [OF cons yr cur Cons.prems(1) this] True show ?thesis by simp
      next
        case False
        with q cy have "\<not> sorts_before cmp y cur" "\<not> sorts_before cmp cur prev" by simp_all
        from not_before_trans [OF cons yr cur Cons.prems(1) this] False show ?thesis by simp
      qed
    qed
    with q s have "sorted_wrt ?Q (prev # take (Suc n) (cur # rest))" by simp
    with e le show ?thesis by simp
  qed
qed

lemma filter_at_most_one:
  "sorted_wrt Q xs \<Longrightarrow> \<forall>x\<in>set xs. \<forall>y\<in>set xs. P x \<and> P y \<longrightarrow> \<not> Q x y \<Longrightarrow>
     length (filter P xs) \<le> 1"
proof (induction xs)
  case Nil
  then show ?case by simp
next
  case (Cons x xs)
  show ?case
  proof (cases "P x")
    case True
    have "filter P xs = []"
    proof (rule ccontr)
      assume "filter P xs \<noteq> []"
      then obtain y where y: "y \<in> set xs" "P y"
        by (auto simp: filter_empty_conv)
      with Cons.prems(1) have "Q x y" by simp
      with Cons.prems(2) True y show False by simp
    qed
    with True show ?thesis by simp
  next
    case False
    with Cons show ?thesis by simp
  qed
qed

lemma rev_at_most_one: "length xs \<le> 1 \<Longrightarrow> rev xs = xs"
  by (cases xs) auto

lemma CountAndMakeRun_run:
  assumes cons: "consistent_on cmp R" and sub: "set a \<subseteq> R"
  shows "\<exists>w r. CountAndMakeRun cmp a = Inr (w, r) \<and> set w = set a
     \<and> sorted_wrt (\<lambda>x y. \<not> sorts_before cmp y x) (take r w)
     \<and> drop r w = drop r a
     \<and> (\<forall>P. (\<forall>x\<in>R. \<forall>y\<in>R. P x \<and> P y \<longrightarrow> \<not> sorts_before cmp x y)
            \<longrightarrow> filter P (take r w) = filter P (take r a))"
proof (cases a)
  case Nil
  then show ?thesis by (simp add: CountAndMakeRun_def)
next
  case a: (Cons x0 a')
  show ?thesis
  proof (cases a')
    case Nil
    with a show ?thesis by (simp add: CountAndMakeRun_def)
  next
    case (Cons x1 rest)
    with a have a2: "a = x0 # x1 # rest" by simp
    with sub have x0: "x0 \<in> R" and x1: "x1 \<in> R" and rest: "set rest \<subseteq> R" by simp_all
    from consistent_SortCompare [OF cons x1 x0] obtain k
      where k: "SortCompare cmp x1 x0 = Inr k" by blast
    from SortCompare_before [OF k] have kb: "(k < 0) = sorts_before cmp x1 x0" .
    let ?d = "k < 0"
    let ?Q = "\<lambda>x y. if ?d then sorts_before cmp y x else \<not> sorts_before cmp y x"
    from run_extent_run [OF cons x1 rest, of ?d] obtain n
      where n: "run_extent cmp ?d x1 rest = Inr n" and le: "n \<le> length rest"
        and s: "sorted_wrt ?Q (x1 # take n rest)"
      by blast
    define r where "r = 2 + n"
    have run: "take r a = x0 # x1 # take n rest"
      by (simp add: r_def a2)
    have q01: "?Q x0 x1" using kb by simp
    have "?Q x0 y" if y: "y \<in> set (take n rest)" for y
    proof -
      from y rest have yr: "y \<in> R" by (auto dest: in_set_takeD)
      from s y have cy: "?Q x1 y" by simp
      show ?thesis
      proof (cases ?d)
        case True
        with q01 cy have "sorts_before cmp y x1" "sorts_before cmp x1 x0" by simp_all
        from before_trans [OF cons yr x1 x0 this] True show ?thesis by simp
      next
        case False
        with q01 cy have "\<not> sorts_before cmp y x1" "\<not> sorts_before cmp x1 x0" by simp_all
        from not_before_trans [OF cons yr x1 x0 this] False show ?thesis by simp
      qed
    qed
    with q01 s have srun: "sorted_wrt ?Q (take r a)" by (simp add: run)
    have runR: "set (take r a) \<subseteq> R"
      using sub by (auto dest: in_set_takeD)
    have lr: "r \<le> length a" using le by (simp add: r_def a2)
    show ?thesis
    proof (cases ?d)
      case False
      with k n have "CountAndMakeRun cmp a = Inr (a, r)"
        by (simp add: CountAndMakeRun_def a2 r_def)
      moreover from srun False have "sorted_wrt (\<lambda>x y. \<not> sorts_before cmp y x) (take r a)"
        by simp
      ultimately show ?thesis by simp
    next
      case True
      let ?w = "rev (take r a) @ drop r a"
      from True k n have e: "CountAndMakeRun cmp a = Inr (?w, r)"
        by (simp add: CountAndMakeRun_def a2 r_def)
      have len: "length (rev (take r a)) = r" using lr by simp
      have tw: "take r ?w = rev (take r a)" using len by simp
      have dw: "drop r ?w = drop r a" using len by simp
      have sw: "set ?w = set a"
      proof -
        have "set ?w = set (take r a) \<union> set (drop r a)" by simp
        also have "\<dots> = set (take r a @ drop r a)" by (simp only: set_append)
        also have "\<dots> = set a" by (simp only: append_take_drop_id)
        finally show ?thesis .
      qed
      from srun True have desc: "sorted_wrt (\<lambda>x y. sorts_before cmp y x) (take r a)" by simp
      have "sorted_wrt (\<lambda>x y. \<not> sorts_before cmp x y) (take r a)"
      proof (rule sorted_wrt_mono_rel [OF _ desc])
        fix x y assume "x \<in> set (take r a)" "y \<in> set (take r a)" "sorts_before cmp y x"
        with runR show "\<not> sorts_before cmp x y"
          using before_asym [OF cons, of y x] by blast
      qed
      then have srt: "sorted_wrt (\<lambda>x y. \<not> sorts_before cmp y x) (take r ?w)"
        by (simp only: tw sorted_wrt_rev)
      have st: "filter P (take r ?w) = filter P (take r a)"
        if h: "\<forall>x\<in>R. \<forall>y\<in>R. P x \<and> P y \<longrightarrow> \<not> sorts_before cmp x y" for P
      proof -
        have "\<forall>x\<in>set (take r a). \<forall>y\<in>set (take r a). P x \<and> P y \<longrightarrow> \<not> sorts_before cmp y x"
          using h runR by blast
        from filter_at_most_one [OF desc this] have "length (filter P (take r a)) \<le> 1" .
        then have "rev (filter P (take r a)) = filter P (take r a)" by (rule rev_at_most_one)
        then show ?thesis by (simp only: tw rev_filter)
      qed
      from e sw srt dw st show ?thesis by blast
    qed
  qed
qed


lemma binary_search_sorted:
  assumes cons: "consistent_on cmp R"
  shows "set a \<subseteq> R \<Longrightarrow> pivot \<in> R \<Longrightarrow>
     sorted_wrt (\<lambda>x y. \<not> sorts_before cmp y x) a \<Longrightarrow>
     left \<le> right \<Longrightarrow> right \<le> length a \<Longrightarrow>
     \<forall>i<left. \<not> sorts_before cmp pivot (a ! i) \<Longrightarrow>
     \<forall>i. right \<le> i \<and> i < length a \<longrightarrow> sorts_before cmp pivot (a ! i) \<Longrightarrow>
     \<exists>l. binary_search cmp a pivot left right = Inr l \<and> l \<le> length a \<and>
       (\<forall>i<l. \<not> sorts_before cmp pivot (a ! i)) \<and>
       (\<forall>i. l \<le> i \<and> i < length a \<longrightarrow> sorts_before cmp pivot (a ! i))"
  using cons
proof (induction cmp a pivot left right rule: binary_search.induct)
  case (1 cmp a pivot left right)
  note cons = "1.prems"(8)
  note sub = "1.prems"(1) and piv = "1.prems"(2) and srt = "1.prems"(3)
  show ?case
  proof (cases "left < right")
    case False
    with "1.prems"(4) have "left = right" by simp
    with "1.prems"(5,6,7) show ?thesis
      by (simp add: binary_search.simps [of cmp a pivot right right])
  next
    case True
    define mid where "mid = left + (right - left) div 2"
    from True have ml: "left \<le> mid" and mr: "mid < right" by (simp_all add: mid_def)
    with "1.prems"(5) have mlen: "mid < length a" by simp
    with sub have am: "a ! mid \<in> R" by auto
    from consistent_SortCompare [OF cons piv am] obtain k
      where k: "SortCompare cmp pivot (a ! mid) = Inr k" by blast
    from SortCompare_before [OF k] have kb: "(k < 0) = sorts_before cmp pivot (a ! mid)" .
    show ?thesis
    proof (cases "k < 0")
      case lt: True
      have up: "\<forall>i. mid \<le> i \<and> i < length a \<longrightarrow> sorts_before cmp pivot (a ! i)"
      proof (intro allI impI)
        fix i assume i: "mid \<le> i \<and> i < length a"
        show "sorts_before cmp pivot (a ! i)"
        proof (cases "i = mid")
          case True
          with lt kb show ?thesis by simp
        next
          case False
          with i have "mid < i" by simp
          with srt i have nb: "\<not> sorts_before cmp (a ! i) (a ! mid)"
            by (simp add: sorted_wrt_iff_nth_less)
          from i sub have ai: "a ! i \<in> R" by auto
          from lt kb have "sorts_before cmp pivot (a ! mid)" by simp
          from before_not_before [OF cons piv am ai this nb] show ?thesis .
        qed
      qed
      from ml mr "1.prems"(5) have b: "left \<le> mid" "mid \<le> length a" by simp_all
      from "1.IH"(1) [OF True mid_def k lt sub piv srt b "1.prems"(6) up cons] obtain l
        where "binary_search cmp a pivot left mid = Inr l" "l \<le> length a"
          "\<forall>i<l. \<not> sorts_before cmp pivot (a ! i)"
          "\<forall>i. l \<le> i \<and> i < length a \<longrightarrow> sorts_before cmp pivot (a ! i)"
        by blast
      with True k lt show ?thesis
        by (simp add: binary_search.simps [of cmp a pivot left right] mid_def [symmetric])
    next
      case ge: False
      have low: "\<forall>i<mid + 1. \<not> sorts_before cmp pivot (a ! i)"
      proof (intro allI impI)
        fix i assume i: "i < mid + 1"
        show "\<not> sorts_before cmp pivot (a ! i)"
        proof (cases "i = mid")
          case True
          with ge kb show ?thesis by simp
        next
          case False
          with i have im: "i < mid" by simp
          with srt mlen have nb: "\<not> sorts_before cmp (a ! mid) (a ! i)"
            by (simp add: sorted_wrt_iff_nth_less)
          from im mlen sub have ai: "a ! i \<in> R" by auto
          from ge kb have "\<not> sorts_before cmp pivot (a ! mid)" by simp
          from not_before_trans [OF cons piv am ai this nb] show ?thesis .
        qed
      qed
      from mr "1.prems"(5) have b: "mid + 1 \<le> right" by simp
      from "1.IH"(2) [OF True mid_def k ge sub piv srt b "1.prems"(5) low "1.prems"(7) cons] obtain l
        where "binary_search cmp a pivot (mid + 1) right = Inr l" "l \<le> length a"
          "\<forall>i<l. \<not> sorts_before cmp pivot (a ! i)"
          "\<forall>i. l \<le> i \<and> i < length a \<longrightarrow> sorts_before cmp pivot (a ! i)"
        by blast
      with True k ge show ?thesis
        by (simp add: binary_search.simps [of cmp a pivot left right] mid_def [symmetric])
    qed
  qed
qed

lemma insertion_loop_sorted:
  assumes cons: "consistent_on cmp R"
  shows "set run \<subseteq> R \<Longrightarrow> set rest \<subseteq> R \<Longrightarrow>
     sorted_wrt (\<lambda>x y. \<not> sorts_before cmp y x) run \<Longrightarrow>
     \<exists>ys. insertion_loop cmp run rest = Inr ys
       \<and> sorted_wrt (\<lambda>x y. \<not> sorts_before cmp y x) ys
       \<and> (\<forall>P. (\<forall>x\<in>R. \<forall>y\<in>R. P x \<and> P y \<longrightarrow> \<not> sorts_before cmp x y)
              \<longrightarrow> filter P ys = filter P (run @ rest))"
proof (induction rest arbitrary: run)
  case Nil
  then show ?case by simp
next
  case (Cons pivot rest)
  let ?nb = "\<lambda>x y. \<not> sorts_before cmp y x"
  from Cons.prems have piv: "pivot \<in> R" and rest: "set rest \<subseteq> R" and run: "set run \<subseteq> R"
    and srt: "sorted_wrt ?nb run"
    by simp_all
  have "\<exists>l. binary_search cmp run pivot 0 (length run) = Inr l \<and> l \<le> length run \<and>
       (\<forall>i<l. \<not> sorts_before cmp pivot (run ! i)) \<and>
       (\<forall>i. l \<le> i \<and> i < length run \<longrightarrow> sorts_before cmp pivot (run ! i))"
    by (rule binary_search_sorted [OF cons run piv srt]) auto
  then obtain l
    where l: "binary_search cmp run pivot 0 (length run) = Inr l" and ll: "l \<le> length run"
      and low: "\<forall>i<l. \<not> sorts_before cmp pivot (run ! i)"
      and up: "\<forall>i. l \<le> i \<and> i < length run \<longrightarrow> sorts_before cmp pivot (run ! i)"
    by blast
  let ?run' = "take l run @ pivot # drop l run"
  have lowset: "\<not> sorts_before cmp pivot x" if "x \<in> set (take l run)" for x
  proof -
    from that obtain i where "i < length (take l run)" "x = take l run ! i"
      by (auto simp: in_set_conv_nth)
    with low show ?thesis by simp
  qed
  have upset: "sorts_before cmp pivot y" if "y \<in> set (drop l run)" for y
  proof -
    from that obtain i where i: "i < length (drop l run)" "y = drop l run ! i"
      by (auto simp: in_set_conv_nth)
    with ll have "y = run ! (l + i)" "l + i < length run" by simp_all
    with up show ?thesis by simp
  qed
  have split: "sorted_wrt ?nb (take l run @ drop l run)"
    using srt by (simp only: append_take_drop_id)
  have dropR: "set (drop l run) \<subseteq> R" using run by (auto dest: in_set_dropD)
  have takeR: "set (take l run) \<subseteq> R" using run by (auto dest: in_set_takeD)
  have "\<forall>y\<in>set (drop l run). ?nb pivot y"
  proof
    fix y assume y: "y \<in> set (drop l run)"
    with dropR have "y \<in> R" by auto
    from before_asym [OF cons piv this upset [OF y]] show "?nb pivot y" .
  qed
  moreover have "sorted_wrt ?nb (take l run) \<and> sorted_wrt ?nb (drop l run)
      \<and> (\<forall>x\<in>set (take l run). \<forall>y\<in>set (drop l run). ?nb x y)"
    using split [unfolded sorted_wrt_append] .
  ultimately have srt': "sorted_wrt ?nb ?run'"
    using lowset by (simp add: sorted_wrt_append)
  have run': "set ?run' \<subseteq> R" using takeR dropR piv by auto
  from Cons.IH [OF run' rest srt'] obtain ys
    where ys: "insertion_loop cmp ?run' rest = Inr ys" and sy: "sorted_wrt ?nb ys"
      and st: "\<And>P. (\<forall>x\<in>R. \<forall>y\<in>R. P x \<and> P y \<longrightarrow> \<not> sorts_before cmp x y)
              \<Longrightarrow> filter P ys = filter P (?run' @ rest)"
    by blast
  have e: "insertion_loop cmp run (pivot # rest) = Inr ys"
    by (simp add: l ys)
  have "filter P ys = filter P (run @ pivot # rest)"
    if h: "\<forall>x\<in>R. \<forall>y\<in>R. P x \<and> P y \<longrightarrow> \<not> sorts_before cmp x y" for P
  proof -
    have ins: "filter P ?run' = filter P (run @ [pivot])"
    proof (cases "P pivot")
      case True
      have "filter P (drop l run) = []"
      proof -
        have "\<not> P y" if y: "y \<in> set (drop l run)" for y
        proof
          assume "P y"
          moreover from y dropR have "y \<in> R" by auto
          ultimately have "\<not> sorts_before cmp pivot y" using h piv True by blast
          with upset [OF y] show False by blast
        qed
        then show ?thesis by (simp add: filter_empty_conv)
      qed
      moreover have "filter P run = filter P (take l run) @ filter P (drop l run)"
        by (simp only: filter_append [symmetric] append_take_drop_id)
      ultimately show ?thesis using True by simp
    next
      case False
      have "filter P run = filter P (take l run) @ filter P (drop l run)"
        by (simp only: filter_append [symmetric] append_take_drop_id)
      with False show ?thesis by simp
    qed
    from st [OF h] have "filter P ys = filter P ?run' @ filter P rest" by simp
    with ins show ?thesis by simp
  qed
  with e sy show ?case by blast
qed

lemma array_sort_sorted:
  assumes cons: "consistent_on cmp (set xs)"
  shows "\<exists>ys. array_sort cmp xs = Inr ys
     \<and> sorted_wrt (\<lambda>x y. \<not> sorts_before cmp y x) ys
     \<and> (\<forall>P. (\<forall>x\<in>set xs. \<forall>y\<in>set xs. P x \<and> P y \<longrightarrow> \<not> sorts_before cmp x y)
            \<longrightarrow> filter P ys = filter P xs)"
proof (cases "length xs < 2")
  case True
  then have "sorted_wrt (\<lambda>x y. \<not> sorts_before cmp y x) xs"
    by (cases xs) auto
  with True show ?thesis by (simp add: array_sort_def)
next
  case False
  from CountAndMakeRun_run [OF cons subset_refl] obtain w r
    where c: "CountAndMakeRun cmp xs = Inr (w, r)" and sw: "set w = set xs"
      and srt: "sorted_wrt (\<lambda>x y. \<not> sorts_before cmp y x) (take r w)"
      and dw: "drop r w = drop r xs"
      and st: "\<And>P. (\<forall>x\<in>set xs. \<forall>y\<in>set xs. P x \<and> P y \<longrightarrow> \<not> sorts_before cmp x y)
            \<Longrightarrow> filter P (take r w) = filter P (take r xs)"
    by blast
  have t: "set (take r w) \<subseteq> set xs" using sw by (auto dest: in_set_takeD)
  have d: "set (drop r w) \<subseteq> set xs" using sw by (auto dest: in_set_dropD)
  from insertion_loop_sorted [OF cons t d srt] obtain ys
    where i: "insertion_loop cmp (take r w) (drop r w) = Inr ys"
      and sy: "sorted_wrt (\<lambda>x y. \<not> sorts_before cmp y x) ys"
      and sti: "\<And>P. (\<forall>x\<in>set xs. \<forall>y\<in>set xs. P x \<and> P y \<longrightarrow> \<not> sorts_before cmp x y)
            \<Longrightarrow> filter P ys = filter P (take r w @ drop r w)"
    by blast
  have e: "array_sort cmp xs = Inr ys"
    using False c i by (simp add: array_sort_def BinaryInsertionSort_def)
  have "filter P ys = filter P xs"
    if h: "\<forall>x\<in>set xs. \<forall>y\<in>set xs. P x \<and> P y \<longrightarrow> \<not> sorts_before cmp x y" for P
  proof -
    from sti [OF h] have "filter P ys = filter P (take r w) @ filter P (drop r w)"
      by (simp only: filter_append)
    also have "\<dots> = filter P (take r xs) @ filter P (drop r xs)"
      by (simp only: st [OF h] dw)
    also have "\<dots> = filter P xs"
      by (simp only: filter_append [symmetric] append_take_drop_id)
    finally show ?thesis .
  qed
  with e sy show ?thesis by blast
qed

subsection \<open>The compiled comparison and the order of the sort keys\<close>

lemma str_lt_trans: "str_lt s t \<Longrightarrow> str_lt t u \<Longrightarrow> str_lt s u"
proof (induction s t arbitrary: u rule: str_lt.induct)
  case 1
  then show ?case by simp
next
  case (2 y ys)
  then show ?case by (cases u) simp_all
next
  case (3 x xs)
  then show ?case by simp
next
  case (4 x xs y ys)
  show ?case
  proof (cases u)
    case Nil
    with "4.prems" show ?thesis by simp
  next
    case (Cons z zs)
    with "4.prems" "4.IH" [of zs] show ?thesis by auto
  qed
qed

lemma str_lt_total: "\<not> str_lt s t \<Longrightarrow> \<not> str_lt t s \<Longrightarrow> s = t"
proof (induction s t rule: str_lt.induct)
  case (4 x xs y ys)
  from "4.prems" have "(of_char x :: nat) = of_char y"
    by (auto simp: not_less) 
  then have "x = y" by simp
  with "4.prems" "4.IH" show ?case by auto
qed simp_all

lemma val_less_irrefl: "\<not> val_less v v"
  by (cases v) (simp_all add: str_lt_irrefl)

lemma val_less_trans: "val_less u v \<Longrightarrow> val_less v w \<Longrightarrow> val_less u w"
  by (cases u; cases v; cases w) (auto intro: str_lt_trans)

lemma key_before_trans:
  "key_before sch keys a b \<Longrightarrow> key_before sch keys b c \<Longrightarrow> key_before sch keys a c"
proof (induction keys)
  case Nil
  then show ?case by simp
next
  case (Cons key keys)
  let ?v = "\<lambda>r. cell_at r (columnIndex sch (fst key))"
  let ?L = "\<lambda>x y. if snd key then val_less x y else val_less y x"
  have Ltrans: "?L x y \<Longrightarrow> ?L y z \<Longrightarrow> ?L x z" for x y z
    by (auto intro: val_less_trans split: if_splits)
  have Lirr: "\<not> ?L x x" for x by (simp add: val_less_irrefl)
  from Cons.prems(1) have ab: "(?v a = ?v b \<and> key_before sch keys a b) \<or> (?v a \<noteq> ?v b \<and> ?L (?v a) (?v b))"
    by (auto simp: Let_def split: if_splits)
  from Cons.prems(2) have bc: "(?v b = ?v c \<and> key_before sch keys b c) \<or> (?v b \<noteq> ?v c \<and> ?L (?v b) (?v c))"
    by (auto simp: Let_def split: if_splits)
  have goal: "key_before sch (key # keys) a c =
      (if ?v a = ?v c then key_before sch keys a c else ?L (?v a) (?v c))"
    by (simp add: Let_def)
  from ab bc show ?case
  proof (elim disjE conjE)
    assume "?v a = ?v b" "key_before sch keys a b" "?v b = ?v c" "key_before sch keys b c"
    with Cons.IH show ?thesis by (simp add: goal del: key_before.simps)
  next
    assume "?v a = ?v b" "?v b \<noteq> ?v c" "?L (?v b) (?v c)"
    then show ?thesis by (simp add: goal del: key_before.simps)
  next
    assume n: "?v a \<noteq> ?v b" and l: "?L (?v a) (?v b)" and e: "?v b = ?v c"
    from n l show ?thesis by (simp add: goal e [symmetric] del: key_before.simps)
  next
    assume n: "?v a \<noteq> ?v b" "?v b \<noteq> ?v c" and l: "?L (?v a) (?v b)" "?L (?v b) (?v c)"
    from Ltrans [OF l] have ac: "?L (?v a) (?v c)" .
    have "?v a \<noteq> ?v c"
    proof
      assume eq: "?v a = ?v c"
      from ac have "?L (?v c) (?v c)" by (simp only: eq)
      with Lirr [of "?v c"] show False by blast
    qed
    with ac show ?thesis by (simp add: goal del: key_before.simps)
  qed
qed


lemma str_lt_asym: "str_lt s t \<Longrightarrow> \<not> str_lt t s"
  using str_lt_trans [of s t s] str_lt_irrefl [of s] by blast

lemma cmpFnMap_typed:
  assumes md: "columnMetadata sch c = Some md"
    and f: "cmpFnMap s2n (type md) = Some f"
    and va: "typed_cell sch c va" and vb: "typed_cell sch c vb"
  shows "\<exists>k. f va vb = Some k \<and> (k < 0) = val_less va vb \<and> (0 < k) = val_less vb va
            \<and> (k = 0) = (va = vb)"
proof (cases "type md = ''text''")
  case True
  with va md obtain s where s: "va = VStr s"
    by (cases va) (simp_all add: typed_cell_def)
  from True vb md obtain t where t: "vb = VStr t"
    by (cases vb) (simp_all add: typed_cell_def)
  from True f have "f = strcmp s2n" by (simp add: cmpFnMap_def)
  then have "f va vb = (if str_lt s t then Some (- 1) else if str_lt t s then Some 1 else Some 0)"
    by (simp add: s t strcmp_def js_lt_def)
  then show ?thesis
    using str_lt_asym [of s t] str_lt_total [of s t] str_lt_irrefl [of s]
    by (auto simp: s t)
next
  case False
  with va md obtain x where x: "va = VNum x"
    by (cases va) (simp_all add: typed_cell_def)
  from False vb md obtain y where y: "vb = VNum y"
    by (cases vb) (simp_all add: typed_cell_def)
  from False f have "f = numcmp s2n" by (simp add: cmpFnMap_def split: if_splits)
  then have "f va vb = Some (x - y)"
    by (simp add: x y numcmp_def)
  then show ?thesis by (auto simp: x y)
qed

lemma compileSortFunc_key_order:
  assumes "list_all (sortable s2n sch) keys"
    and "typed_keys sch (map fst keys) a" and "typed_keys sch (map fst keys) b"
  shows "\<exists>rsf k. compileSortFunc s2n sch keys = Inr rsf \<and> rsf a b = Inr (Some k)
     \<and> (k < 0) = key_before sch keys a b \<and> (0 < k) = key_before sch keys b a
     \<and> (k = 0) = (cells_at sch (map fst keys) a = cells_at sch (map fst keys) b)"
  using assms
proof (induction keys)
  case Nil
  then show ?case by (simp add: cells_at_def)
next
  case (Cons key keys)
  let ?v = "\<lambda>r. cell_at r (columnIndex sch (fst key))"
  from Cons.prems have ta: "typed_cell sch (fst key) (?v a)" and tb: "typed_cell sch (fst key) (?v b)"
    and ra: "typed_keys sch (map fst keys) a" and rb: "typed_keys sch (map fst keys) b"
    and so: "list_all (sortable s2n sch) keys"
    by (simp_all add: typed_keys_def)
  from Cons.IH [OF so ra rb] obtain rowCmpFn k'
    where r: "compileSortFunc s2n sch keys = Inr rowCmpFn"
      and k': "rowCmpFn a b = Inr (Some k')"
      and lt': "(k' < 0) = key_before sch keys a b"
      and gt': "(0 < k') = key_before sch keys b a"
      and eq': "(k' = 0) = (cells_at sch (map fst keys) a = cells_at sch (map fst keys) b)"
    by blast
  from Cons.prems obtain md f where md: "columnMetadata sch (fst key) = Some md"
    and f: "cmpFnMap s2n (type md) = Some f"
    by (auto simp: sortable_def split: option.splits)
  define g where "g = (if \<not> snd key then (\<lambda>v1 v2. f v2 v1) else f)"
  have vf: "(if \<not> snd key then reverseArgs (cmpFnMap s2n (type md)) else cmpFnMap s2n (type md)) = Some g"
    by (simp add: f g_def reverseArgs_def)
  let ?rsf = "mkRowCompFn (Some g) (columnIndex sch (fst key)) rowCmpFn"
  have e: "compileSortFunc s2n sch (key # keys) = Inr ?rsf"
    by (simp add: r md columnType_def vf Let_def)
  let ?L = "\<lambda>x y. if snd key then val_less x y else val_less y x"
  have "\<exists>k. g (?v a) (?v b) = Some k \<and> (k < 0) = ?L (?v a) (?v b) \<and> (0 < k) = ?L (?v b) (?v a)
      \<and> (k = 0) = (?v a = ?v b)"
  proof (cases "snd key")
    case True
    with cmpFnMap_typed [OF md f ta tb] show ?thesis by (simp add: g_def)
  next
    case False
    with cmpFnMap_typed [OF md f tb ta] show ?thesis by (auto simp: g_def)
  qed
  then obtain k where k: "g (?v a) (?v b) = Some k" and lt: "(k < 0) = ?L (?v a) (?v b)"
    and gt: "(0 < k) = ?L (?v b) (?v a)" and eq: "(k = 0) = (?v a = ?v b)"
    by blast
  have kb: "key_before sch (key # keys) x y =
      (if ?v x = ?v y then key_before sch keys x y else ?L (?v x) (?v y))" for x y
    by (simp add: Let_def)
  have ce: "(cells_at sch (map fst (key # keys)) a = cells_at sch (map fst (key # keys)) b) =
      (?v a = ?v b \<and> cells_at sch (map fst keys) a = cells_at sch (map fst keys) b)"
    by (simp add: cells_at_def)
  show ?case
  proof (cases "k = 0")
    case True
    with eq have same: "?v a = ?v b" by simp
    from True k k' have "?rsf a b = Inr (Some k')"
      by (simp add: mkRowCompFn_def Let_def)
    moreover from same lt' have "(k' < 0) = key_before sch (key # keys) a b"
      by (simp only: kb) simp
    moreover from same gt' have "(0 < k') = key_before sch (key # keys) b a"
      by (simp only: kb) simp
    moreover from same eq' have "(k' = 0) =
        (cells_at sch (map fst (key # keys)) a = cells_at sch (map fst (key # keys)) b)"
      by (simp only: ce) simp
    ultimately show ?thesis using e by blast
  next
    case False
    with eq have diff: "?v a \<noteq> ?v b" by simp
    from False k have "?rsf a b = Inr (Some k)"
      by (simp add: mkRowCompFn_def Let_def)
    moreover from diff lt have "(k < 0) = key_before sch (key # keys) a b"
      by (simp only: kb) simp
    moreover from diff gt have "(0 < k) = key_before sch (key # keys) b a"
      by (simp only: kb) auto
    moreover from diff False have "(k = 0) =
        (cells_at sch (map fst (key # keys)) a = cells_at sch (map fst (key # keys)) b)"
      by (simp only: ce) simp
    ultimately show ?thesis using e by blast
  qed
qed

lemma compileSortFunc_consistent:
  assumes so: "list_all (sortable s2n sch) keys"
    and rsf: "compileSortFunc s2n sch keys = Inr rsf"
    and ty: "\<forall>r\<in>R. typed_keys sch (map fst keys) r"
  shows "consistent_on rsf R"
proof -
  have ch: "\<exists>k. rsf a b = Inr (Some k)
     \<and> (k < 0) = key_before sch keys a b \<and> (0 < k) = key_before sch keys b a
     \<and> (k = 0) = (cells_at sch (map fst keys) a = cells_at sch (map fst keys) b)"
    if "a \<in> R" "b \<in> R" for a b
    using compileSortFunc_key_order [OF so, of a b] that ty rsf by auto
  have before: "sorts_before rsf a b = key_before sch keys a b" if "a \<in> R" "b \<in> R" for a b
    using ch [OF that] by (auto simp: sorts_before_def)
  have after: "sorts_after rsf a b = key_before sch keys b a" if "a \<in> R" "b \<in> R" for a b
    using ch [OF that] by (auto simp: sorts_after_def)
  have equal: "sorts_equal rsf a b = (cells_at sch (map fst keys) a = cells_at sch (map fst keys) b)"
    if "a \<in> R" "b \<in> R" for a b
    using ch [OF that] by (auto simp: sorts_equal_def)
  show ?thesis
    unfolding consistent_on_def
  proof (intro conjI ballI impI)
    fix a b assume ab: "a \<in> R" "b \<in> R"
    from ch [OF ab] obtain k where "rsf a b = Inr (Some k)" by blast
    then show "sorts_before rsf a b \<or> sorts_equal rsf a b \<or> sorts_after rsf a b"
      by (auto simp: sorts_before_def sorts_equal_def sorts_after_def)
  next
    fix a assume "a \<in> R"
    then show "sorts_equal rsf a a" by (simp add: equal)
  next
    fix a b assume "a \<in> R" "b \<in> R" "sorts_equal rsf a b"
    then show "sorts_equal rsf b a" by (simp add: equal)
  next
    fix a b c assume "a \<in> R" "b \<in> R" "c \<in> R" "sorts_equal rsf a b \<and> sorts_equal rsf b c"
    then show "sorts_equal rsf a c" by (simp add: equal)
  next
    fix a b c assume "a \<in> R" "b \<in> R" "c \<in> R" "sorts_before rsf a b \<and> sorts_before rsf b c"
    then show "sorts_before rsf a c" by (auto simp: before intro: key_before_trans)
  next
    fix a b c assume "a \<in> R" "b \<in> R" "c \<in> R" "sorts_after rsf a b \<and> sorts_after rsf b c"
    then show "sorts_after rsf a c" by (auto simp: after intro: key_before_trans)
  qed
qed

text \<open>
  C5, as amended.  For a table whose rows are in the store and sort keys that are columns
  with a comparison, \<open>sort\<close> returns a table with the schema of the input whose rows
  are a new array of the store: the store is the old one with the new array appended, so
  the row array of the input, as every other array, is unmodified.  The new array holds
  the rows of the input (as a multiset).  The compiled comparison returns 0 or \<open>NaN\<close>
  for rows with equal cells at all key columns; on rows whose key cells have the types of
  their columns it is the order of the sort keys: the first key on which two rows differ
  decides, in the direction of the key.  When the compiled comparison is a consistent
  comparison function for the rows of the input, as it is when the key cells of all rows
  have the types of their columns, the new array is in order (no row sorts after a later
  one) and the sort is stable: the rows of any set \<open>P\<close> of rows that compare equal are
  in the new array in the order they have in the input, and so are the rows with the key
  cells of any row \<open>r\<close>.
\<close>

theorem sort_stable_copy:
  assumes "list_all (sortable s2n (schema_of t)) sortKeys" and "rowData_at t < length st"
  shows "\<exists>rsf rows'.
      compileSortFunc s2n (schema_of t) sortKeys = Inr rsf
    \<and> sortImpl s2n sortKeys st (t # rest) =
        Inr (st @ [rows'], \<lparr>schema_of = schema_of t, rowData_at = length st\<rparr>)
    \<and> deref (st @ [rows']) t = deref st t
    \<and> mset rows' = mset (st ! rowData_at t)
    \<and> (\<forall>a b. cells_at (schema_of t) (map fst sortKeys) a = cells_at (schema_of t) (map fst sortKeys) b
             \<longrightarrow> rsf a b = Inr (Some 0) \<or> rsf a b = Inr None)
    \<and> (\<forall>a b. typed_keys (schema_of t) (map fst sortKeys) a
               \<and> typed_keys (schema_of t) (map fst sortKeys) b
             \<longrightarrow> sorts_before rsf a b = key_before (schema_of t) sortKeys a b
               \<and> sorts_after rsf a b = key_before (schema_of t) sortKeys b a
               \<and> sorts_equal rsf a b =
                   (cells_at (schema_of t) (map fst sortKeys) a
                    = cells_at (schema_of t) (map fst sortKeys) b))
    \<and> (list_all (typed_keys (schema_of t) (map fst sortKeys)) (st ! rowData_at t) \<longrightarrow>
          consistent_on rsf (set (st ! rowData_at t))
        \<and> sorted_wrt (\<lambda>a b. \<not> key_before (schema_of t) sortKeys b a) rows')
    \<and> (consistent_on rsf (set (st ! rowData_at t)) \<longrightarrow>
          sorted_wrt (\<lambda>a b. \<not> sorts_after rsf a b) rows'
        \<and> (\<forall>P. (\<forall>x\<in>set (st ! rowData_at t). \<forall>y\<in>set (st ! rowData_at t).
                    P x \<and> P y \<longrightarrow> sorts_equal rsf x y)
                 \<longrightarrow> filter P rows' = filter P (st ! rowData_at t))
        \<and> (\<forall>r. filter (\<lambda>x. cells_at (schema_of t) (map fst sortKeys) x
                               = cells_at (schema_of t) (map fst sortKeys) r) rows'
               = filter (\<lambda>x. cells_at (schema_of t) (map fst sortKeys) x
                               = cells_at (schema_of t) (map fst sortKeys) r) (st ! rowData_at t)))"
proof -
  let ?rows = "st ! rowData_at t"
  let ?key = "cells_at (schema_of t) (map fst sortKeys)"
  let ?typed = "typed_keys (schema_of t) (map fst sortKeys)"
  from compileSortFunc_sortable [OF assms(1)] obtain rsf
    where rsf: "compileSortFunc s2n (schema_of t) sortKeys = Inr rsf"
      and tot: "total_cmp rsf"
      and same: "\<forall>a b. ?key a = ?key b \<longrightarrow> rsf a b = Inr (Some 0) \<or> rsf a b = Inr None"
    by blast
  from array_sort_total [OF tot, of ?rows] obtain rows'
    where srt: "array_sort rsf ?rows = Inr rows'"
      and m: "mset rows' = mset ?rows"
    by blast
  from m have set_eq: "set rows' = set ?rows" by (rule mset_eq_setD)
  have impl: "sortImpl s2n sortKeys st (t # rest) =
        Inr (st @ [rows'], \<lparr>schema_of = schema_of t, rowData_at = length st\<rparr>)"
    using assms(2) by (simp add: sortImpl_def rsf slice_def sort_in_place_def srt nth_append)
  have frame: "deref (st @ [rows']) t = deref st t"
    using assms(2) by (simp add: deref_def nth_append)
  have order: "sorts_before rsf a b = key_before (schema_of t) sortKeys a b
               \<and> sorts_after rsf a b = key_before (schema_of t) sortKeys b a
               \<and> sorts_equal rsf a b = (?key a = ?key b)"
    if "?typed a \<and> ?typed b" for a b
  proof -
    from compileSortFunc_key_order [OF assms(1), of a b] that rsf obtain k
      where "rsf a b = Inr (Some k)" "(k < 0) = key_before (schema_of t) sortKeys a b"
        "(0 < k) = key_before (schema_of t) sortKeys b a" "(k = 0) = (?key a = ?key b)"
      by auto
    then show ?thesis
      by (auto simp: sorts_before_def sorts_after_def sorts_equal_def)
  qed
  have ordered: "sorted_wrt (\<lambda>a b. \<not> sorts_after rsf a b) rows'
        \<and> (\<forall>P. (\<forall>x\<in>set ?rows. \<forall>y\<in>set ?rows. P x \<and> P y \<longrightarrow> sorts_equal rsf x y)
                 \<longrightarrow> filter P rows' = filter P ?rows)
        \<and> (\<forall>r. filter (\<lambda>x. ?key x = ?key r) rows' = filter (\<lambda>x. ?key x = ?key r) ?rows)"
    if cons: "consistent_on rsf (set ?rows)"
  proof -
    from array_sort_sorted [OF cons] srt
    have s: "sorted_wrt (\<lambda>x y. \<not> sorts_before rsf y x) rows'"
      and st: "\<And>P. (\<forall>x\<in>set ?rows. \<forall>y\<in>set ?rows. P x \<and> P y \<longrightarrow> \<not> sorts_before rsf x y)
            \<Longrightarrow> filter P rows' = filter P ?rows"
      by auto
    have s': "sorted_wrt (\<lambda>a b. \<not> sorts_after rsf a b) rows'"
    proof (rule sorted_wrt_mono_rel [OF _ s])
      fix x y assume "x \<in> set rows'" "y \<in> set rows'" "\<not> sorts_before rsf y x"
      with set_eq after_before [OF cons, of x y] show "\<not> sorts_after rsf x y" by simp
    qed
    have st': "filter P rows' = filter P ?rows"
      if h: "\<forall>x\<in>set ?rows. \<forall>y\<in>set ?rows. P x \<and> P y \<longrightarrow> sorts_equal rsf x y" for P
    proof (rule st, intro ballI impI)
      fix x y assume "x \<in> set ?rows" "y \<in> set ?rows" "P x \<and> P y"
      with h have "sorts_equal rsf x y" by blast
      with sorts_exclusive(1) [of rsf x y] show "\<not> sorts_before rsf x y" by blast
    qed
    have st'': "filter (\<lambda>x. ?key x = ?key r) rows' = filter (\<lambda>x. ?key x = ?key r) ?rows" for r
    proof (rule st', intro ballI impI)
      fix x y assume x: "x \<in> set ?rows" and y: "y \<in> set ?rows"
        and "?key x = ?key r \<and> ?key y = ?key r"
      then have "?key x = ?key y" by simp
      with same have "rsf x y = Inr (Some 0) \<or> rsf x y = Inr None" by blast
      moreover from cons_total [OF cons x y] have "rsf x y \<noteq> Inr None"
        by (auto simp: sorts_before_def sorts_equal_def sorts_after_def)
      ultimately show "sorts_equal rsf x y" by (simp add: sorts_equal_def)
    qed
    from s' st' st'' show ?thesis by blast
  qed
  have typed: "consistent_on rsf (set ?rows)
        \<and> sorted_wrt (\<lambda>a b. \<not> key_before (schema_of t) sortKeys b a) rows'"
    if ty: "list_all ?typed ?rows"
  proof -
    from ty have ty': "\<forall>r\<in>set ?rows. ?typed r" by (simp add: list_all_iff)
    from compileSortFunc_consistent [OF assms(1) rsf ty']
    have cons: "consistent_on rsf (set ?rows)" .
    from ordered [OF cons] have s: "sorted_wrt (\<lambda>a b. \<not> sorts_after rsf a b) rows'" by blast
    have "sorted_wrt (\<lambda>a b. \<not> key_before (schema_of t) sortKeys b a) rows'"
    proof (rule sorted_wrt_mono_rel [OF _ s])
      fix x y assume "x \<in> set rows'" "y \<in> set rows'" and n: "\<not> sorts_after rsf x y"
      with set_eq ty' have "?typed x \<and> ?typed y" by blast
      from order [OF this] n show "\<not> key_before (schema_of t) sortKeys y x" by simp
    qed
    with cons show ?thesis by blast
  qed
  from rsf impl frame m same order typed ordered show ?thesis by blast
qed

text \<open>
  The theorem at four rows sorted by \<open>(a ascending, b descending)\<close>: the key cells
  have the types of their columns, the comparison is consistent for the rows, and the two
  rows equal on both keys keep their order.
\<close>

theorem sort_stable_copy_witness:
  "list_all (sortable (\<lambda>s. None)
       (new_Schema [''a'', ''b'', ''c'']
          [''a'' \<mapsto> \<lparr>type = ''integer'', displayName = ''A''\<rparr>,
           ''b'' \<mapsto> \<lparr>type = ''text'', displayName = ''B''\<rparr>,
           ''c'' \<mapsto> \<lparr>type = ''integer'', displayName = ''C''\<rparr>]))
     [(''a'', True), (''b'', False)]
   \<and> (0::nat) < length [[[VNum 1, VStr ''x'', VNum 10], [VNum 0, VStr ''y'', VNum 20],
                          [VNum 1, VStr ''x'', VNum 30], [VNum 1, VStr ''z'', VNum 40]]]
   \<and> list_all (typed_keys
         (new_Schema [''a'', ''b'', ''c'']
            [''a'' \<mapsto> \<lparr>type = ''integer'', displayName = ''A''\<rparr>,
             ''b'' \<mapsto> \<lparr>type = ''text'', displayName = ''B''\<rparr>,
             ''c'' \<mapsto> \<lparr>type = ''integer'', displayName = ''C''\<rparr>])
         [''a'', ''b''])
       [[VNum 1, VStr ''x'', VNum 10], [VNum 0, VStr ''y'', VNum 20],
        [VNum 1, VStr ''x'', VNum 30], [VNum 1, VStr ''z'', VNum 40]]
   \<and> (case compileSortFunc (\<lambda>s. None)
         (new_Schema [''a'', ''b'', ''c'']
            [''a'' \<mapsto> \<lparr>type = ''integer'', displayName = ''A''\<rparr>,
             ''b'' \<mapsto> \<lparr>type = ''text'', displayName = ''B''\<rparr>,
             ''c'' \<mapsto> \<lparr>type = ''integer'', displayName = ''C''\<rparr>])
         [(''a'', True), (''b'', False)] of
         Inl err \<Rightarrow> False
       | Inr rsf \<Rightarrow>
           consistent_on rsf
             (set [[VNum 1, VStr ''x'', VNum 10], [VNum 0, VStr ''y'', VNum 20],
                   [VNum 1, VStr ''x'', VNum 30], [VNum 1, VStr ''z'', VNum 40]]))
   \<and> sortImpl (\<lambda>s. None) [(''a'', True), (''b'', False)]
        [[[VNum 1, VStr ''x'', VNum 10], [VNum 0, VStr ''y'', VNum 20],
          [VNum 1, VStr ''x'', VNum 30], [VNum 1, VStr ''z'', VNum 40]]]
        [\<lparr>schema_of = new_Schema [''a'', ''b'', ''c'']
            [''a'' \<mapsto> \<lparr>type = ''integer'', displayName = ''A''\<rparr>,
             ''b'' \<mapsto> \<lparr>type = ''text'', displayName = ''B''\<rparr>,
             ''c'' \<mapsto> \<lparr>type = ''integer'', displayName = ''C''\<rparr>],
          rowData_at = 0\<rparr>]
      = Inr ([[[VNum 1, VStr ''x'', VNum 10], [VNum 0, VStr ''y'', VNum 20],
               [VNum 1, VStr ''x'', VNum 30], [VNum 1, VStr ''z'', VNum 40]],
              [[VNum 0, VStr ''y'', VNum 20], [VNum 1, VStr ''z'', VNum 40],
               [VNum 1, VStr ''x'', VNum 10], [VNum 1, VStr ''x'', VNum 30]]],
             \<lparr>schema_of = new_Schema [''a'', ''b'', ''c'']
                [''a'' \<mapsto> \<lparr>type = ''integer'', displayName = ''A''\<rparr>,
                 ''b'' \<mapsto> \<lparr>type = ''text'', displayName = ''B''\<rparr>,
                 ''c'' \<mapsto> \<lparr>type = ''integer'', displayName = ''C''\<rparr>],
               rowData_at = 1\<rparr>)"
proof -
  let ?sch = "new_Schema [''a'', ''b'', ''c'']
          [''a'' \<mapsto> \<lparr>type = ''integer'', displayName = ''A''\<rparr>,
           ''b'' \<mapsto> \<lparr>type = ''text'', displayName = ''B''\<rparr>,
           ''c'' \<mapsto> \<lparr>type = ''integer'', displayName = ''C''\<rparr>]"
  let ?rows = "[[VNum 1, VStr ''x'', VNum 10], [VNum 0, VStr ''y'', VNum 20],
                [VNum 1, VStr ''x'', VNum 30], [VNum 1, VStr ''z'', VNum 40]]"
  let ?t = "\<lparr>schema_of = ?sch, rowData_at = 0\<rparr>"
  have h1: "list_all (sortable (\<lambda>s. None) (schema_of ?t)) [(''a'', True), (''b'', False)]"
    by (simp add: sortable_def new_Schema_def cmpFnMap_def)
  have h2: "rowData_at ?t < length [?rows]"
    by simp
  have h3: "case compileSortFunc (\<lambda>s. None) ?sch [(''a'', True), (''b'', False)] of
         Inl err \<Rightarrow> False
       | Inr rsf \<Rightarrow> consistent_on rsf (set ?rows)"
    by code_simp
  have h4: "list_all (typed_keys ?sch [''a'', ''b'']) ?rows"
    by code_simp
  have ev: "fst (projr (sortImpl (\<lambda>s. None) [(''a'', True), (''b'', False)] [?rows] [?t])) =
      [?rows, [[VNum 0, VStr ''y'', VNum 20], [VNum 1, VStr ''z'', VNum 40],
               [VNum 1, VStr ''x'', VNum 10], [VNum 1, VStr ''x'', VNum 30]]]"
    by code_simp
  from sort_stable_copy [OF h1 h2, of "[]"] obtain rows' where
    "sortImpl (\<lambda>s. None) [(''a'', True), (''b'', False)] [?rows] [?t] =
        Inr ([?rows] @ [rows'], \<lparr>schema_of = schema_of ?t, rowData_at = length [?rows]\<rparr>)"
    by blast
  with ev h1 h2 h3 h4 show ?thesis
    by simp
qed

text \<open>
  The claim as stated fails: the sort is not stable on every table.  In a table sorted by
  its text column \<open>name\<close>, ascending, the cell of the row with \<open>id\<close> 2 is
  \<open>null\<close>, which compares as 0 with every string, so the comparison is not
  consistent for the rows.  The rows with the ids 5 and 6 have the same cell at the key
  column and compare equal, and the row 5 comes first in the input; in the output the
  row 6 comes before the row 5.
\<close>

theorem sort_null_text_unstable_counterexample:
  "list_all (sortable (\<lambda>s. None)
       (new_Schema [''id'', ''name'']
          [''id'' \<mapsto> \<lparr>type = ''integer'', displayName = ''Id''\<rparr>,
           ''name'' \<mapsto> \<lparr>type = ''text'', displayName = ''Name''\<rparr>]))
     [(''name'', True)]
   \<and> map_sum id fst
        (sortImpl (\<lambda>s. None) [(''name'', True)]
          [[[VNum 0, VStr ''b''], [VNum 1, VStr ''a''], [VNum 2, VNull], [VNum 3, VStr ''a''],
            [VNum 4, VStr ''a''], [VNum 5, VStr ''a''], [VNum 6, VStr ''a'']]]
          [\<lparr>schema_of = new_Schema [''id'', ''name'']
              [''id'' \<mapsto> \<lparr>type = ''integer'', displayName = ''Id''\<rparr>,
               ''name'' \<mapsto> \<lparr>type = ''text'', displayName = ''Name''\<rparr>],
            rowData_at = 0\<rparr>])
      = Inr [[[VNum 0, VStr ''b''], [VNum 1, VStr ''a''], [VNum 2, VNull], [VNum 3, VStr ''a''],
              [VNum 4, VStr ''a''], [VNum 5, VStr ''a''], [VNum 6, VStr ''a'']],
             [[VNum 1, VStr ''a''], [VNum 3, VStr ''a''], [VNum 4, VStr ''a''], [VNum 6, VStr ''a''],
              [VNum 0, VStr ''b''], [VNum 2, VNull], [VNum 5, VStr ''a'']]]
   \<and> cells_at
        (new_Schema [''id'', ''name'']
          [''id'' \<mapsto> \<lparr>type = ''integer'', displayName = ''Id''\<rparr>,
           ''name'' \<mapsto> \<lparr>type = ''text'', displayName = ''Name''\<rparr>])
        [''name''] [VNum 5, VStr ''a'']
      = cells_at
        (new_Schema [''id'', ''name'']
          [''id'' \<mapsto> \<lparr>type = ''integer'', displayName = ''Id''\<rparr>,
           ''name'' \<mapsto> \<lparr>type = ''text'', displayName = ''Name''\<rparr>])
        [''name''] [VNum 6, VStr ''a'']
   \<and> sorts_equal
        (projr (compileSortFunc (\<lambda>s. None)
          (new_Schema [''id'', ''name'']
            [''id'' \<mapsto> \<lparr>type = ''integer'', displayName = ''Id''\<rparr>,
             ''name'' \<mapsto> \<lparr>type = ''text'', displayName = ''Name''\<rparr>])
          [(''name'', True)]))
        [VNum 5, VStr ''a''] [VNum 6, VStr ''a'']
   \<and> sorts_equal
        (projr (compileSortFunc (\<lambda>s. None)
          (new_Schema [''id'', ''name'']
            [''id'' \<mapsto> \<lparr>type = ''integer'', displayName = ''Id''\<rparr>,
             ''name'' \<mapsto> \<lparr>type = ''text'', displayName = ''Name''\<rparr>])
          [(''name'', True)]))
        [VNum 6, VStr ''a''] [VNum 5, VStr ''a'']"
  by code_simp

section \<open>Properties of extend\<close>

text \<open>
  C3, as amended.  \<open>extend\<close> returns a table whose column list is the column list of
  the input with the new identifier appended at the end.  The metadata of every other
  identifier is the input's; the metadata of the new identifier is the supplied metadata
  when the input schema has no entry for the identifier, and the entry of the input schema
  when it has one.
\<close>

theorem extend_schema:
  "\<exists>out. extendImpl colId md ev (t # rest) = Inr out
     \<and> columns (schema out) = columns (schema t) @ [colId]
     \<and> columnMetadata (schema out) colId =
         (case columnMetadata (schema t) colId of None \<Rightarrow> Some md | Some old \<Rightarrow> Some old)
     \<and> (\<forall>c. c \<noteq> colId \<longrightarrow> columnMetadata (schema out) c = columnMetadata (schema t) c)"
  by (simp add: extendImpl_def new_Schema_def map_add_def Let_def split: option.split)

text \<open>The theorem at a table with the column \<open>a\<close>, extended by a column \<open>b\<close>.\<close>

theorem extend_schema_witness:
  "\<exists>out. extendImpl ''b'' \<lparr>type = ''text'', displayName = ''B''\<rparr> (ExtendConst VNull)
            [\<lparr>schema = new_Schema [''a''] [''a'' \<mapsto> \<lparr>type = ''integer'', displayName = ''A''\<rparr>],
              rowData = [[VNum 1]]\<rparr>] = Inr out
     \<and> columns (schema out) = [''a'', ''b'']
     \<and> columnMetadata (schema out) ''b'' = Some \<lparr>type = ''text'', displayName = ''B''\<rparr>
     \<and> columnMetadata (schema out) ''a'' = Some \<lparr>type = ''integer'', displayName = ''A''\<rparr>"
  using extend_schema [of "''b''" "\<lparr>type = ''text'', displayName = ''B''\<rparr>" "ExtendConst VNull"
      "\<lparr>schema = new_Schema [''a''] [''a'' \<mapsto> \<lparr>type = ''integer'', displayName = ''A''\<rparr>],
              rowData = [[VNum 1]]\<rparr>" "[]"]
  by (auto simp: new_Schema_def)

text \<open>
  The claim as stated fails: on a table whose schema has an entry for the identifier, here
  \<open>a\<close> of type integer, the supplied metadata (type text) does not override the entry.
\<close>

theorem extend_supplied_metadata_counterexample:
  "\<not> (case extendImpl ''a'' \<lparr>type = ''text'', displayName = ''B''\<rparr> (ExtendConst VNull)
            [\<lparr>schema = new_Schema [''a''] [''a'' \<mapsto> \<lparr>type = ''integer'', displayName = ''A''\<rparr>],
              rowData = [[VNum 1]]\<rparr>] of
          Inl err \<Rightarrow> False
        | Inr out \<Rightarrow> columnMetadata (schema out) ''a'' = Some \<lparr>type = ''text'', displayName = ''B''\<rparr>)"
  by (simp add: extendImpl_def new_Schema_def Let_def)


section \<open>Properties of the CSE evaluator\<close>

text \<open>
  C2.  Two \<open>extend\<close> nodes that differ in their generator function only, under one
  \<open>concat\<close> node: \<open>JSON.stringify\<close> writes either function as \<open>null\<close>, the two keys
  are equal, and \<open>buildCSEMap\<close> gives both nodes the value number 1.  The evaluator holds
  three numbered expressions, for the table, the first \<open>extend\<close> node and the \<open>concat\<close>
  node, whose two children both are number 1.
\<close>

theorem different_generators_merged:
  "map tableNums (valExps (snd (buildCSEMap (new_CSEEvaluator :: unit CSEEvaluator)
     (QueryExp ''concat'' []
        [QueryExp ''extend'' [JStr ''c'', JObj [(''type'', JStr ''integer'')], JFunction 0]
           [QueryExp ''table'' [JStr ''t''] []],
         QueryExp ''extend'' [JStr ''c'', JObj [(''type'', JStr ''integer'')], JFunction 1]
           [QueryExp ''table'' [JStr ''t''] []]]))))
   = [[], [0], [1, 1]]"
  by code_simp

subsection \<open>Value numbering\<close>

lemma buildCSEMap_miss:
  assumes "buildCSEMaps ev targs = (tnums, ev1)"
    and "invMap ev1 (expKey_of opr tnums vargs) = None"
  shows "buildCSEMap ev (QueryExp opr vargs targs) =
     (length (valExps ev1),
      ev1\<lparr>valExps := valExps ev1 @ [\<lparr>exp = QueryExp opr vargs targs, tableNums = tnums\<rparr>],
          invMap := (invMap ev1)(expKey_of opr tnums vargs \<mapsto> length (valExps ev1))\<rparr>)"
  using assms by (simp add: Let_def)

lemma buildCSEMap_hit:
  assumes "buildCSEMaps ev targs = (tnums, ev1)"
    and "invMap ev1 (expKey_of opr tnums vargs) = Some valNum"
  shows "buildCSEMap ev (QueryExp opr vargs targs) = (valNum, ev1)"
  using assms by (simp add: Let_def)

lemma buildCSEMaps_Cons:
  assumes "buildCSEMap ev e = (n, ev1)" and "buildCSEMaps ev1 es = (ns, ev2)"
  shows "buildCSEMaps ev (e # es) = (n # ns, ev2)"
  using assms by simp

declare buildCSEMap.simps [simp del] buildCSEMaps.simps(2) [simp del]

lemma buildCSEMap_grows:
  "buildCSEMap ev q = (n, ev') \<Longrightarrow> invMap ev \<subseteq>\<^sub>m invMap ev'"
  "buildCSEMaps ev qs = (ns, ev'') \<Longrightarrow> invMap ev \<subseteq>\<^sub>m invMap ev''"
proof (induction ev q and ev qs arbitrary: n ev' and ns ev'' rule: buildCSEMap_buildCSEMaps.induct)
  case (1 ev opr vargs targs)
  obtain tnums ev1 where c: "buildCSEMaps ev targs = (tnums, ev1)"
    by (cases "buildCSEMaps ev targs")
  from "1.IH" [OF c] have le: "invMap ev \<subseteq>\<^sub>m invMap ev1" .
  show ?case
  proof (cases "invMap ev1 (expKey_of opr tnums vargs)")
    case None
    with "1.prems" c have e: "invMap ev' = (invMap ev1)(expKey_of opr tnums vargs \<mapsto> length (valExps ev1))"
      by (auto simp: buildCSEMap_miss [OF c None])
    from None have a: "invMap ev1 \<subseteq>\<^sub>m (invMap ev1)(expKey_of opr tnums vargs \<mapsto> length (valExps ev1))"
      by (auto simp: map_le_def)
    from map_le_trans [OF le a] show ?thesis by (simp only: e)
  next
    case (Some v)
    with "1.prems" c have "ev' = ev1" by (simp add: buildCSEMap_hit [OF c Some])
    with le show ?thesis by simp
  qed
next
  case (2 ev)
  then show ?case by (simp add: buildCSEMaps.simps)
next
  case (3 ev e es)
  obtain n1 ev1 where a: "buildCSEMap ev e = (n1, ev1)" by (cases "buildCSEMap ev e")
  obtain ns2 ev2 where b: "buildCSEMaps ev1 es = (ns2, ev2)" by (cases "buildCSEMaps ev1 es")
  from "3.prems" have "ev'' = ev2" by (simp add: buildCSEMaps_Cons [OF a b])
  with map_le_trans [OF "3.IH"(1) [OF a] "3.IH"(2) [OF a [symmetric] b]] show ?case
    by simp
qed


lemma buildCSEMap_stable:
  "buildCSEMap ev q = (n, ev') \<Longrightarrow> invMap ev' \<subseteq>\<^sub>m invMap ev2 \<Longrightarrow> buildCSEMap ev2 q = (n, ev2)"
  "buildCSEMaps ev qs = (ns, ev'') \<Longrightarrow> invMap ev'' \<subseteq>\<^sub>m invMap ev2 \<Longrightarrow> buildCSEMaps ev2 qs = (ns, ev2)"
proof (induction ev q and ev qs arbitrary: n ev' ev2 and ns ev'' ev2 rule: buildCSEMap_buildCSEMaps.induct)
  case (1 ev opr vargs targs)
  obtain tnums ev1 where c: "buildCSEMaps ev targs = (tnums, ev1)"
    by (cases "buildCSEMaps ev targs")
  let ?key = "expKey_of opr tnums vargs"
  have "n = the (invMap ev' ?key) \<and> invMap ev' ?key \<noteq> None \<and> invMap ev1 \<subseteq>\<^sub>m invMap ev'"
  proof (cases "invMap ev1 ?key")
    case None
    with "1.prems"(1) show ?thesis
      by (auto simp: buildCSEMap_miss [OF c None] map_le_def)
  next
    case (Some v)
    with "1.prems"(1) show ?thesis
      by (auto simp: buildCSEMap_hit [OF c Some])
  qed
  then have n: "invMap ev' ?key = Some n" and le: "invMap ev1 \<subseteq>\<^sub>m invMap ev'"
    by auto
  from map_le_trans [OF le "1.prems"(2)] have le2: "invMap ev1 \<subseteq>\<^sub>m invMap ev2" .
  from "1.IH" [OF c le2] have c2: "buildCSEMaps ev2 targs = (tnums, ev2)" .
  from n "1.prems"(2) have "invMap ev2 ?key = Some n"
    by (auto simp: map_le_def dom_def)
  from buildCSEMap_hit [OF c2 this] show ?case .
next
  case (2 ev)
  then show ?case by simp
next
  case (3 ev e es)
  obtain n1 ev1 where a: "buildCSEMap ev e = (n1, ev1)" by (cases "buildCSEMap ev e")
  obtain ns2 ev3 where b: "buildCSEMaps ev1 es = (ns2, ev3)" by (cases "buildCSEMaps ev1 es")
  from "3.prems"(1) have eq: "ns = n1 # ns2" "ev'' = ev3"
    by (simp_all add: buildCSEMaps_Cons [OF a b])
  from buildCSEMap_grows(2) [OF b] "3.prems"(2) eq have le1: "invMap ev1 \<subseteq>\<^sub>m invMap ev2"
    by (auto intro: map_le_trans)
  from "3.prems"(2) eq have le3: "invMap ev3 \<subseteq>\<^sub>m invMap ev2" by simp
  from "3.IH"(1) [OF a le1] have a2: "buildCSEMap ev2 e = (n1, ev2)" .
  from "3.IH"(2) [OF a [symmetric] b le3] have b2: "buildCSEMaps ev2 es = (ns2, ev2)" .
  from buildCSEMaps_Cons [OF a2 b2] eq show ?case by simp
qed

lemma calls_stable:
  "c \<in> set (calls ev q) \<Longrightarrow> invMap (snd (buildCSEMap ev q)) \<subseteq>\<^sub>m invMap ev2 \<Longrightarrow>
     buildCSEMap ev2 (fst c) = (snd c, ev2)"
  "c \<in> set (callss ev qs) \<Longrightarrow> invMap (snd (buildCSEMaps ev qs)) \<subseteq>\<^sub>m invMap ev2 \<Longrightarrow>
     buildCSEMap ev2 (fst c) = (snd c, ev2)"
proof (induction ev q and ev qs arbitrary: c ev2 and c ev2 rule: calls_callss.induct)
  case (1 ev opr vargs targs)
  let ?q = "QueryExp opr vargs targs"
  obtain tnums ev1 where ch: "buildCSEMaps ev targs = (tnums, ev1)"
    by (cases "buildCSEMaps ev targs")
  obtain n ev' where b: "buildCSEMap ev ?q = (n, ev')" by (cases "buildCSEMap ev ?q")
  have le: "invMap ev1 \<subseteq>\<^sub>m invMap ev'"
  proof (cases "invMap ev1 (expKey_of opr tnums vargs)")
    case None
    with b show ?thesis by (auto simp: buildCSEMap_miss [OF ch None] map_le_def)
  next
    case (Some v)
    with b show ?thesis by (auto simp: buildCSEMap_hit [OF ch Some])
  qed
  from "1.prems"(1) consider "c \<in> set (callss ev targs)" | "c = (?q, n)"
    by (auto simp: b)
  then show ?case
  proof cases
    case 1
    from le "1.prems"(2) b have "invMap (snd (buildCSEMaps ev targs)) \<subseteq>\<^sub>m invMap ev2"
      by (auto simp: ch intro: map_le_trans)
    from "1.IH" [OF 1 this] show ?thesis .
  next
    case 2
    from "1.prems"(2) b have "invMap ev' \<subseteq>\<^sub>m invMap ev2" by simp
    from buildCSEMap_stable(1) [OF b this] 2 show ?thesis by simp
  qed
next
  case (2 ev)
  then show ?case by simp
next
  case (3 ev e es)
  obtain n1 ev1 where a: "buildCSEMap ev e = (n1, ev1)" by (cases "buildCSEMap ev e")
  obtain ns2 ev3 where b: "buildCSEMaps ev1 es = (ns2, ev3)" by (cases "buildCSEMaps ev1 es")
  have fin: "snd (buildCSEMaps ev (e # es)) = ev3"
    by (simp add: buildCSEMaps_Cons [OF a b])
  from "3.prems"(1) consider "c \<in> set (calls ev e)" | "c \<in> set (callss ev1 es)"
    by (auto simp: a)
  then show ?case
  proof cases
    case 1
    from buildCSEMap_grows(2) [OF b] "3.prems"(2) fin have "invMap (snd (buildCSEMap ev e)) \<subseteq>\<^sub>m invMap ev2"
      by (auto simp: a intro: map_le_trans)
    from "3.IH"(1) [OF 1 this] show ?thesis .
  next
    case 2
    from "3.prems"(2) fin have "invMap (snd (buildCSEMaps (snd (buildCSEMap ev e)) es)) \<subseteq>\<^sub>m invMap ev2"
      by (simp add: a b)
    from "3.IH"(2) [OF _ this] 2 show ?thesis by (simp add: a)
  qed
qed

lemma same_subexpression_same_number:
  assumes "c1 \<in> set (calls ev q)" and "c2 \<in> set (calls ev q)" and "fst c1 = fst c2"
  shows "snd c1 = snd c2"
proof -
  let ?ev = "snd (buildCSEMap ev q)"
  have le: "invMap ?ev \<subseteq>\<^sub>m invMap ?ev" by simp
  from calls_stable(1) [OF assms(1) le] calls_stable(1) [OF assms(2) le] assms(3)
  show ?thesis by simp
qed

lemma buildCSEMap_wf:
  "wf_nums ev \<Longrightarrow> inv_bound ev \<Longrightarrow> buildCSEMap ev q = (n, ev') \<Longrightarrow>
     wf_nums ev' \<and> inv_bound ev' \<and> n < length (valExps ev') \<and> length (valExps ev) \<le> length (valExps ev')
     \<and> promises ev' = promises ev \<and> CSEEvaluator.more ev' = CSEEvaluator.more ev"
  "wf_nums ev \<Longrightarrow> inv_bound ev \<Longrightarrow> buildCSEMaps ev qs = (ns, ev'') \<Longrightarrow>
     wf_nums ev'' \<and> inv_bound ev'' \<and> (\<forall>n\<in>set ns. n < length (valExps ev'')) \<and> length (valExps ev) \<le> length (valExps ev'')
     \<and> promises ev'' = promises ev \<and> CSEEvaluator.more ev'' = CSEEvaluator.more ev"
proof (induction ev q and ev qs arbitrary: n ev' and ns ev'' rule: buildCSEMap_buildCSEMaps.induct)
  case (1 ev opr vargs targs)
  obtain tnums ev1 where c: "buildCSEMaps ev targs = (tnums, ev1)"
    by (cases "buildCSEMaps ev targs")
  from "1.IH" [OF "1.prems"(1,2) c]
  have wf1: "wf_nums ev1" and ib1: "inv_bound ev1" and b1: "\<forall>n\<in>set tnums. n < length (valExps ev1)"
    and l1: "length (valExps ev) \<le> length (valExps ev1)"
    and p1: "promises ev1 = promises ev" and m1: "CSEEvaluator.more ev1 = CSEEvaluator.more ev"
    by simp_all
  let ?key = "expKey_of opr tnums vargs"
  show ?case
  proof (cases "invMap ev1 ?key")
    case None
    let ?ne = "\<lparr>exp = QueryExp opr vargs targs, tableNums = tnums\<rparr>"
    from "1.prems"(3) have n: "n = length (valExps ev1)"
      and ev': "ev' = ev1\<lparr>valExps := valExps ev1 @ [?ne], invMap := (invMap ev1)(?key \<mapsto> length (valExps ev1))\<rparr>"
      by (auto simp: buildCSEMap_miss [OF c None])
    have "wf_nums ev'"
      unfolding wf_nums_def
    proof (intro allI impI ballI)
      fix i ch assume i: "i < length (valExps ev')" and ch: "ch \<in> set (tableNums (valExps ev' ! i))"
      show "ch < i"
      proof (cases "i < length (valExps ev1)")
        case True
        with ch have "ch \<in> set (tableNums (valExps ev1 ! i))" by (simp add: ev' nth_append)
        with wf1 True show ?thesis by (auto simp: wf_nums_def)
      next
        case False
        with i have "i = length (valExps ev1)" by (simp add: ev')
        with ch b1 show ?thesis by (simp add: ev')
      qed
    qed
    moreover have "inv_bound ev'"
      using ib1 by (auto simp: inv_bound_def ev' less_Suc_eq)
    ultimately show ?thesis
      using l1 p1 m1 by (simp add: n ev')
  next
    case (Some v)
    from "1.prems"(3) have "n = v" "ev' = ev1"
      by (simp_all add: buildCSEMap_hit [OF c Some])
    with wf1 ib1 l1 p1 m1 Some show ?thesis by (auto simp: inv_bound_def)
  qed
next
  case (2 ev)
  then show ?case by simp
next
  case (3 ev e es)
  obtain n1 ev1 where a: "buildCSEMap ev e = (n1, ev1)" by (cases "buildCSEMap ev e")
  obtain ns2 ev3 where b: "buildCSEMaps ev1 es = (ns2, ev3)" by (cases "buildCSEMaps ev1 es")
  from "3.prems"(3) have eq: "ns = n1 # ns2" "ev'' = ev3"
    by (simp_all add: buildCSEMaps_Cons [OF a b])
  from "3.IH"(1) [OF "3.prems"(1,2) a]
  have wf1: "wf_nums ev1" and ib1: "inv_bound ev1" and n1: "n1 < length (valExps ev1)"
    and l1: "length (valExps ev) \<le> length (valExps ev1)"
    and p1: "promises ev1 = promises ev" and m1: "CSEEvaluator.more ev1 = CSEEvaluator.more ev"
    by simp_all
  from "3.IH"(2) [OF a [symmetric] wf1 ib1 b]
  have "wf_nums ev3" "inv_bound ev3" "\<forall>n\<in>set ns2. n < length (valExps ev3)"
    "length (valExps ev1) \<le> length (valExps ev3)"
    "promises ev3 = promises ev1" "CSEEvaluator.more ev3 = CSEEvaluator.more ev1"
    by simp_all
  with n1 l1 p1 m1 eq show ?case by auto
qed

subsection \<open>Memoized evaluation\<close>

lemma eval_step_refl: "eval_inv ev \<Longrightarrow> eval_step b ev ev"
  by (simp add: eval_step_def)

lemma eval_step_trans:
  "eval_step b1 ev ev1 \<Longrightarrow> eval_step b2 ev1 ev2 \<Longrightarrow> b1 \<le> b \<Longrightarrow> b2 \<le> b \<Longrightarrow> eval_step b ev ev2"
  by (simp add: eval_step_def)

lemma eval_step_wf: "eval_step b ev ev' \<Longrightarrow> wf_nums ev \<Longrightarrow> wf_nums ev'"
  by (simp add: eval_step_def wf_nums_def)

lemma all_settled_Fulfilled:
  "all_settled ps = Inr ts \<Longrightarrow> \<forall>p\<in>set ps. \<exists>t. p = Fulfilled t"
proof (induction ps arbitrary: ts)
  case Nil
  then show ?case by simp
next
  case (Cons p ps)
  show ?case
  proof (cases p)
    case (Fulfilled t)
    with Cons.prems obtain ts' where "all_settled ps = Inr ts'"
      by (cases "all_settled ps") simp_all
    with Cons.IH Fulfilled show ?thesis by simp
  next
    case (Rejected err)
    with Cons.prems show ?thesis by simp
  qed
qed

lemma all_settled_Rejected:
  "all_settled ps = Inl err \<Longrightarrow> \<exists>p\<in>set ps. \<exists>e. p = Rejected e"
proof (induction ps)
  case Nil
  then show ?case by simp
next
  case (Cons p ps)
  show ?case
  proof (cases p)
    case (Fulfilled t)
    with Cons.prems have "all_settled ps = Inl err"
      by (cases "all_settled ps") simp_all
    with Cons.IH show ?thesis by simp
  next
    case (Rejected e)
    then show ?thesis by simp
  qed
qed

text \<open>
  The invariant is kept when a promise is stored for a value number \<open>t\<close> that had none,
  and when \<open>t\<close> is added to the executed ones: a value number with a stored promise is
  not \<open>t\<close>, and neither is one of its sub-tables.
\<close>

lemma eval_inv_frame:
  assumes inv: "eval_inv ev" and none: "promises ev t = None"
    and v: "valExps ev' = valExps ev"
    and p: "\<And>n. n \<noteq> t \<Longrightarrow> promises ev' n = promises ev n"
    and x: "set (executed ev') \<subseteq> insert t (set (executed ev))"
           "set (executed ev) \<subseteq> set (executed ev')"
    and n: "promises ev' n = Some q" "n \<noteq> t"
  shows "n < length (valExps ev') \<and>
         (\<forall>c\<in>set (tableNums (valExps ev' ! n)). promises ev' c \<noteq> None) \<and>
         ((n \<in> set (executed ev')) =
            (\<forall>c\<in>set (tableNums (valExps ev' ! n)). \<exists>t'. promises ev' c = Some (Fulfilled t'))) \<and>
         (n \<notin> set (executed ev') \<longrightarrow> (\<exists>err. q = Rejected err))"
proof -
  from n p have q: "promises ev n = Some q" by simp
  with inv have l: "n < length (valExps ev)"
    and ch: "\<forall>c\<in>set (tableNums (valExps ev ! n)). promises ev c \<noteq> None"
    and ex: "(n \<in> set (executed ev)) =
            (\<forall>c\<in>set (tableNums (valExps ev ! n)). \<exists>t'. promises ev c = Some (Fulfilled t'))"
    and rj: "n \<notin> set (executed ev) \<longrightarrow> (\<exists>err. q = Rejected err)"
    unfolding eval_inv_def by blast+
  have same: "promises ev' c = promises ev c" if "c \<in> set (tableNums (valExps ev ! n))" for c
  proof -
    from ch that none have "c \<noteq> t" by auto
    then show ?thesis by (rule p)
  qed
  from x n(2) have mem: "(n \<in> set (executed ev')) = (n \<in> set (executed ev))" by auto
  from l have "n < length (valExps ev')" by (simp add: v)
  moreover from ch same have "\<forall>c\<in>set (tableNums (valExps ev' ! n)). promises ev' c \<noteq> None"
    by (simp add: v)
  moreover from ex same have "(n \<in> set (executed ev')) =
            (\<forall>c\<in>set (tableNums (valExps ev' ! n)). \<exists>t'. promises ev' c = Some (Fulfilled t'))"
    by (simp add: v mem)
  moreover from rj have "n \<notin> set (executed ev') \<longrightarrow> (\<exists>err. q = Rejected err)"
    by (simp add: mem)
  ultimately show ?thesis by blast
qed

lemma store_executed:
  fixes resp :: "'t promise"
  assumes inv: "eval_inv ev" and cov: "memo_covers ev" and none: "promises ev t = None"
    and t: "t < length (valExps ev)"
    and ch: "\<forall>c\<in>set (tableNums (valExps ev ! t)). \<exists>t'. promises ev c = Some (Fulfilled t')"
  defines "ev' \<equiv> ev\<lparr>promises := (promises ev)(t \<mapsto> resp), executed := executed ev @ [t]\<rparr>"
  shows "eval_step (Suc t) ev ev' \<and> memo_covers ev' \<and> promises ev' t = Some resp"
proof -
  from cov none have notin: "t \<notin> set (executed ev)"
    by (auto simp: memo_covers_def)
  have d: "distinct (executed ev')"
    using inv notin by (simp add: ev'_def eval_inv_def)
  from ch none have nt: "\<forall>c\<in>set (tableNums (valExps ev ! t)). c \<noteq> t" by auto
  have f: "n < length (valExps ev') \<and>
         (\<forall>c\<in>set (tableNums (valExps ev' ! n)). promises ev' c \<noteq> None) \<and>
         ((n \<in> set (executed ev')) =
            (\<forall>c\<in>set (tableNums (valExps ev' ! n)). \<exists>t'. promises ev' c = Some (Fulfilled t'))) \<and>
         (n \<notin> set (executed ev') \<longrightarrow> (\<exists>err. q = Rejected err))"
    if q: "promises ev' n = Some q" for n q
  proof (cases "n = t")
    case True
    from ch nt have "\<forall>c\<in>set (tableNums (valExps ev ! t)). \<exists>t'. promises ev' c = Some (Fulfilled t')"
      by (simp add: ev'_def)
    with True t show ?thesis by (auto simp: ev'_def)
  next
    case False
    show ?thesis
      by (rule eval_inv_frame [OF inv none _ _ _ _ q False]) (auto simp: ev'_def)
  qed
  from d f have "eval_inv ev'" unfolding eval_inv_def by blast
  moreover have "\<forall>n p. promises ev n = Some p \<longrightarrow> promises ev' n = Some p"
    using none by (auto simp: ev'_def)
  moreover have "memo_covers ev'"
    using cov by (auto simp: memo_covers_def ev'_def)
  ultimately show ?thesis
    by (simp add: eval_step_def ev'_def)
qed

lemma store_rejected:
  fixes err :: error
  assumes inv: "eval_inv ev" and cov: "memo_covers ev" and none: "promises ev t = None"
    and t: "t < length (valExps ev)"
    and ch: "\<forall>c\<in>set (tableNums (valExps ev ! t)). promises ev c \<noteq> None"
    and rj: "\<exists>c\<in>set (tableNums (valExps ev ! t)). \<exists>e. promises ev c = Some (Rejected e)"
  defines "ev' \<equiv> ev\<lparr>promises := (promises ev)(t \<mapsto> Rejected err)\<rparr>"
  shows "eval_step (Suc t) ev ev' \<and> memo_covers ev' \<and> promises ev' t = Some (Rejected err)"
proof -
  from cov none have notin: "t \<notin> set (executed ev)"
    by (auto simp: memo_covers_def)
  have d: "distinct (executed ev')"
    using inv by (simp add: ev'_def eval_inv_def)
  from ch none have nt: "\<forall>c\<in>set (tableNums (valExps ev ! t)). c \<noteq> t" by auto
  have f: "n < length (valExps ev') \<and>
         (\<forall>c\<in>set (tableNums (valExps ev' ! n)). promises ev' c \<noteq> None) \<and>
         ((n \<in> set (executed ev')) =
            (\<forall>c\<in>set (tableNums (valExps ev' ! n)). \<exists>t'. promises ev' c = Some (Fulfilled t'))) \<and>
         (n \<notin> set (executed ev') \<longrightarrow> (\<exists>err. q = Rejected err))"
    if q: "promises ev' n = Some q" for n q
  proof (cases "n = t")
    case True
    from rj obtain c e where c: "c \<in> set (tableNums (valExps ev ! t))"
      and e: "promises ev c = Some (Rejected e)" by blast
    from c nt e have "promises ev' c = Some (Rejected e)" by (simp add: ev'_def)
    with c have "\<not> (\<forall>c\<in>set (tableNums (valExps ev ! t)). \<exists>t'. promises ev' c = Some (Fulfilled t'))"
      by (auto intro!: bexI [of _ c])
    moreover from ch nt have "\<forall>c\<in>set (tableNums (valExps ev ! t)). promises ev' c \<noteq> None"
      by (simp add: ev'_def)
    moreover from q True have "q = Rejected err" by (simp add: ev'_def)
    ultimately show ?thesis using True t notin by (simp add: ev'_def)
  next
    case False
    show ?thesis
      by (rule eval_inv_frame [OF inv none _ _ _ _ q False]) (auto simp: ev'_def)
  qed
  from d f have "eval_inv ev'" unfolding eval_inv_def by blast
  moreover have "\<forall>n p. promises ev n = Some p \<longrightarrow> promises ev' n = Some p"
    using none by (auto simp: ev'_def)
  moreover have "memo_covers ev'"
    using cov by (auto simp: memo_covers_def ev'_def)
  ultimately show ?thesis
    by (simp add: eval_step_def ev'_def)
qed

lemma thrown_executed:
  assumes inv: "eval_inv ev" and cov: "memo_covers ev" and none: "promises ev t = None"
  defines "ev' \<equiv> ev\<lparr>executed := executed ev @ [t]\<rparr>"
  shows "eval_step (Suc t) ev ev'"
proof -
  from cov none have notin: "t \<notin> set (executed ev)"
    by (auto simp: memo_covers_def)
  have d: "distinct (executed ev')"
    using inv notin by (simp add: ev'_def eval_inv_def)
  have f: "n < length (valExps ev') \<and>
         (\<forall>c\<in>set (tableNums (valExps ev' ! n)). promises ev' c \<noteq> None) \<and>
         ((n \<in> set (executed ev')) =
            (\<forall>c\<in>set (tableNums (valExps ev' ! n)). \<exists>t'. promises ev' c = Some (Fulfilled t'))) \<and>
         (n \<notin> set (executed ev') \<longrightarrow> (\<exists>err. q = Rejected err))"
    if q: "promises ev' n = Some q" for n q
  proof -
    from q none have nt: "n \<noteq> t" by (auto simp: ev'_def)
    show ?thesis
      by (rule eval_inv_frame [OF inv none _ _ _ _ q nt]) (auto simp: ev'_def)
  qed
  from d f have "eval_inv ev'" unfolding eval_inv_def by blast
  then show ?thesis
    by (simp add: eval_step_def ev'_def)
qed

lemma map_evalTable_post:
  assumes "\<forall>tid\<in>set tids. eval_ok f tid \<and> tid < b"
    and "wf_nums ev" and "eval_inv ev" and "memo_covers ev"
  shows "\<exists>out ev'. map_evalTable f ev tids = Some (out, ev') \<and> eval_step b ev ev' \<and>
     (\<forall>ps. out = Inr ps \<longrightarrow> memo_covers ev' \<and> length ps = length tids \<and>
        (\<forall>j<length tids. promises ev' (tids ! j) = Some (ps ! j)))"
  using assms
proof (induction tids arbitrary: ev)
  case Nil
  then show ?case by (simp add: eval_step_refl)
next
  case (Cons tid tids)
  from Cons.prems have ok: "eval_ok f tid" and lt: "tid < b" by simp_all
  from ok Cons.prems(2-4) obtain out1 ev1 where f1: "f ev tid = Some (out1, ev1)"
    and s1: "eval_step (Suc tid) ev ev1"
    and r1: "\<And>p. out1 = Inr p \<Longrightarrow> memo_covers ev1 \<and> promises ev1 tid = Some p"
    unfolding eval_ok_def by blast
  from s1 lt have s1b: "eval_step b ev ev1"
    by (simp add: eval_step_def)
  show ?case
  proof (cases out1)
    case (Inl err)
    with f1 have "map_evalTable f ev (tid # tids) = Some (Inl err, ev1)" by simp
    with s1b show ?thesis by simp
  next
    case (Inr p)
    from r1 [OF Inr] have c1: "memo_covers ev1" and p1: "promises ev1 tid = Some p" by simp_all
    from s1 have i1: "eval_inv ev1" by (simp add: eval_step_def)
    from eval_step_wf [OF s1 Cons.prems(2)] have w1: "wf_nums ev1" .
    from Cons.prems(1) have rest: "\<forall>tid\<in>set tids. eval_ok f tid \<and> tid < b" by simp
    from Cons.IH [OF rest w1 i1 c1] obtain out2 ev2
      where m2: "map_evalTable f ev1 tids = Some (out2, ev2)"
        and s2: "eval_step b ev1 ev2"
        and r2: "\<And>ps. out2 = Inr ps \<Longrightarrow> memo_covers ev2 \<and> length ps = length tids \<and>
            (\<forall>j<length tids. promises ev2 (tids ! j) = Some (ps ! j))"
      by blast
    from eval_step_trans [OF s1b s2] have s: "eval_step b ev ev2" by simp
    show ?thesis
    proof (cases out2)
      case (Inl err)
      with f1 Inr m2 have "map_evalTable f ev (tid # tids) = Some (Inl err, ev2)" by simp
      with s show ?thesis by simp
    next
      case ps: (Inr ps)
      with f1 Inr m2 have e: "map_evalTable f ev (tid # tids) = Some (Inr (p # ps), ev2)" by simp
      from r2 [OF ps] have c2: "memo_covers ev2" and len: "length ps = length tids"
        and nth: "\<forall>j<length tids. promises ev2 (tids ! j) = Some (ps ! j)"
        by simp_all
      from s2 p1 have p2: "promises ev2 tid = Some p" by (simp add: eval_step_def)
      have "\<forall>j<length (tid # tids). promises ev2 ((tid # tids) ! j) = Some ((p # ps) ! j)"
      proof (intro allI impI)
        fix j assume "j < length (tid # tids)"
        then show "promises ev2 ((tid # tids) ! j) = Some ((p # ps) ! j)"
          using p2 nth by (cases j) simp_all
      qed
      with e s c2 len show ?thesis by simp
    qed
  qed
qed

lemma evalTable_ok:
  "tableId < fuel \<Longrightarrow> eval_ok (evalTable B I fuel) tableId"
proof (induction fuel arbitrary: tableId)
  case 0
  then show ?case by simp
next
  case (Suc fuel)
  show ?case
    unfolding eval_ok_def
  proof (intro allI impI)
    fix ev :: "'a Session"
    assume pre: "wf_nums ev \<and> eval_inv ev \<and> memo_covers ev"
    then have wf: "wf_nums ev" and inv: "eval_inv ev" and cov: "memo_covers ev" by simp_all
    let ?goal = "\<exists>out ev'. evalTable B I (Suc fuel) ev tableId = Some (out, ev') \<and>
        eval_step (Suc tableId) ev ev' \<and>
        (\<forall>p. out = Inr p \<longrightarrow> memo_covers ev' \<and> promises ev' tableId = Some p)"
    show ?goal
    proof (cases "promises ev tableId")
      case (Some resp)
      then have "evalTable B I (Suc fuel) ev tableId = Some (Inr resp, ev)" by simp
      with Some inv cov show ?thesis by (simp add: eval_step_refl)
    next
      case None
      show ?thesis
      proof (cases "tableId < length (valExps ev)")
        case False
        with None have "evalTable B I (Suc fuel) ev tableId = Some (Inl TypeError, ev)" by simp
        with inv show ?thesis by (simp add: eval_step_refl)
      next
        case True
        let ?ne = "valExps ev ! tableId"
        show ?thesis
        proof (cases "tableNums ?ne = []")
          case leaf: True
          show ?thesis
          proof (cases "evalBaseExp B (exp ?ne)")
            case (Inl err)
            with None True leaf
            have "evalTable B I (Suc fuel) ev tableId =
                Some (Inl err, ev\<lparr>executed := executed ev @ [tableId]\<rparr>)"
              by simp
            with thrown_executed [OF inv cov None] show ?thesis by simp
          next
            case (Inr resp)
            with None True leaf
            have "evalTable B I (Suc fuel) ev tableId =
                Some (Inr resp, ev\<lparr>promises := (promises ev)(tableId \<mapsto> resp),
                                    executed := executed ev @ [tableId]\<rparr>)"
              by simp
            moreover have "\<forall>c\<in>set (tableNums ?ne). \<exists>t'. promises ev c = Some (Fulfilled t')"
              using leaf by simp
            from store_executed [OF inv cov None True this]
            have "eval_step (Suc tableId) ev (ev\<lparr>promises := (promises ev)(tableId \<mapsto> resp),
                                    executed := executed ev @ [tableId]\<rparr>)
                \<and> memo_covers (ev\<lparr>promises := (promises ev)(tableId \<mapsto> resp),
                                    executed := executed ev @ [tableId]\<rparr>)
                \<and> promises (ev\<lparr>promises := (promises ev)(tableId \<mapsto> resp),
                                    executed := executed ev @ [tableId]\<rparr>) tableId = Some resp" .
            ultimately show ?thesis by simp
          qed
        next
          case interior: False
          let ?tids = "tableNums ?ne"
          from wf True have below: "\<forall>c\<in>set ?tids. c < tableId"
            by (simp add: wf_nums_def)
          from Suc.prems have "tableId \<le> fuel" by simp
          with below Suc.IH have "\<forall>tid\<in>set ?tids. eval_ok (evalTable B I fuel) tid \<and> tid < tableId"
            by auto
          from map_evalTable_post [OF this wf inv cov] obtain out1 ev1
            where m: "map_evalTable (evalTable B I fuel) ev ?tids = Some (out1, ev1)"
              and s1: "eval_step tableId ev ev1"
              and r1: "\<And>ps. out1 = Inr ps \<Longrightarrow> memo_covers ev1 \<and> length ps = length ?tids \<and>
                  (\<forall>j<length ?tids. promises ev1 (?tids ! j) = Some (ps ! j))"
            by blast
          from s1 have v1: "valExps ev1 = valExps ev" and i1: "eval_inv ev1"
            and none1: "promises ev1 tableId = None"
            using None by (simp_all add: eval_step_def)
          from s1 have s1': "eval_step (Suc tableId) ev ev1" by (simp add: eval_step_def)
          show ?thesis
          proof (cases out1)
            case (Inl err)
            with None True interior m
            have "evalTable B I (Suc fuel) ev tableId = Some (Inl err, ev1)" by simp
            with s1' show ?thesis by simp
          next
            case ps: (Inr ps)
            from r1 [OF ps] have c1: "memo_covers ev1" and len: "length ps = length ?tids"
              and nth: "\<forall>j<length ?tids. promises ev1 (?tids ! j) = Some (ps ! j)"
              by simp_all
            show ?thesis
            proof (cases "all_settled ps")
              case (Inl err)
              let ?ev' = "ev1\<lparr>promises := (promises ev1)(tableId \<mapsto> Rejected err)\<rparr>"
              from None True interior m ps Inl
              have e: "evalTable B I (Suc fuel) ev tableId = Some (Inr (Rejected err), ?ev')"
                by simp
              from True v1 have t1: "tableId < length (valExps ev1)" by simp
              have ch: "\<forall>c\<in>set (tableNums (valExps ev1 ! tableId)). promises ev1 c \<noteq> None"
              proof
                fix c assume "c \<in> set (tableNums (valExps ev1 ! tableId))"
                then obtain j where j: "j < length ?tids" and c: "c = ?tids ! j"
                  by (auto simp: v1 in_set_conv_nth)
                with nth show "promises ev1 c \<noteq> None" by auto
              qed
              from all_settled_Rejected [OF Inl] obtain p e where "p \<in> set ps" "p = Rejected e"
                by blast
              then obtain j where j: "j < length ps" and pj: "ps ! j = Rejected e"
                by (auto simp: in_set_conv_nth)
              from j len nth pj have "promises ev1 (?tids ! j) = Some (Rejected e)" by simp
              moreover from j len have "?tids ! j \<in> set (tableNums (valExps ev1 ! tableId))"
                by (simp add: v1)
              ultimately have rj: "\<exists>c\<in>set (tableNums (valExps ev1 ! tableId)).
                  \<exists>e. promises ev1 c = Some (Rejected e)"
                by blast
              from store_rejected [OF i1 c1 none1 t1 ch rj, of err]
              have "eval_step (Suc tableId) ev1 ?ev'" "memo_covers ?ev'"
                "promises ?ev' tableId = Some (Rejected err)"
                by simp_all
              with eval_step_trans [OF s1' this(1)] e show ?thesis by simp
            next
              case tv: (Inr tvals)
              let ?resp = "case evalInteriorExp I (exp ?ne) tvals of Inl err \<Rightarrow> Rejected err | Inr t \<Rightarrow> Fulfilled t"
              let ?ev' = "ev1\<lparr>promises := (promises ev1)(tableId \<mapsto> ?resp),
                              executed := executed ev1 @ [tableId]\<rparr>"
              from None True interior m ps tv
              have e: "evalTable B I (Suc fuel) ev tableId = Some (Inr ?resp, ?ev')"
                by (simp add: Let_def)
              have ch: "\<forall>c\<in>set (tableNums (valExps ev1 ! tableId)). \<exists>t'. promises ev1 c = Some (Fulfilled t')"
              proof
                fix c assume "c \<in> set (tableNums (valExps ev1 ! tableId))"
                then obtain j where j: "j < length ?tids" and c: "c = ?tids ! j"
                  by (auto simp: v1 in_set_conv_nth)
                from j len have "ps ! j \<in> set ps" by simp
                with all_settled_Fulfilled [OF tv] obtain t' where "ps ! j = Fulfilled t'" by blast
                with nth j c show "\<exists>t'. promises ev1 c = Some (Fulfilled t')" by auto
              qed
              from True v1 have t1: "tableId < length (valExps ev1)" by simp
              from store_executed [OF i1 c1 none1 t1 ch, of ?resp]
              have "eval_step (Suc tableId) ev1 ?ev'" "memo_covers ?ev'"
                "promises ?ev' tableId = Some ?resp"
                by simp_all
              with eval_step_trans [OF s1' this(1)] e show ?thesis by simp
            qed
          qed
        qed
      qed
    qed
  qed
qed

lemma count_list_distinct:
  "distinct xs \<Longrightarrow> count_list xs x = (if x \<in> set xs then 1 else 0)"
  by (induction xs) auto

lemma new_Session_pre:
  "wf_nums (new_Session :: 't Session)" "inv_bound (new_Session :: 't Session)"
  "eval_inv (new_Session :: 't Session)" "memo_covers (new_Session :: 't Session)"
  by (simp_all add: new_Session_def wf_nums_def inv_bound_def eval_inv_def memo_covers_def)

lemma query_in_calls: "(q, fst (buildCSEMap ev q)) \<in> set (calls ev q)"
  by (cases q) simp

text \<open>
  C1, as amended.  In the traversal of a query by \<open>buildCSEMap\<close> from the new
  evaluator, every two invocations on structurally identical subexpressions return the
  same value number.  The evaluation of the query then returns (for a bound on the depth
  greater than the number of the root), and it leaves an evaluator in which no value
  number was executed more than once; the promise it returns is the one stored for the
  root; a further request for a value number with a stored promise returns that promise
  and leaves the evaluator as it is; and every value number whose promise is fulfilled was
  executed exactly once, its sub-tables being fulfilled as well.  When the evaluation
  returns a promise, every executed value number has a stored promise.  Every value number
  with a stored promise is the index of a numbered expression, each of its sub-tables has
  a stored promise, and it was executed exactly once when the promises of all its
  sub-tables are fulfilled (a value number without sub-tables always), whether its own
  promise is then fulfilled or rejected, and not at all when the promise of one of its
  sub-tables is not fulfilled; a value number that was not executed has a rejected
  promise.  This holds for every operator library and every table source.
\<close>

theorem structural_sharing:
  fixes evaluator :: "'t Session" and tableRef :: "'t tableSource"
  assumes "buildCSEMap new_Session query = (root, evaluator)" and "root < fuel"
  shows "(query, root) \<in> set (calls (new_Session :: 't Session) query)
     \<and> (\<forall>c1\<in>set (calls (new_Session :: 't Session) query).
          \<forall>c2\<in>set (calls (new_Session :: 't Session) query). fst c1 = fst c2 \<longrightarrow> snd c1 = snd c2)
     \<and> (\<exists>out ev'. localEvalQuery tableRef simpleOpImplMap fuel query = Some (out, ev')
          \<and> valExps ev' = valExps evaluator
          \<and> (\<forall>n. count_list (executed ev') n \<le> 1)
          \<and> (\<forall>p. out = Inr p \<longrightarrow> promises ev' root = Some p)
          \<and> (\<forall>n p k. promises ev' n = Some p \<longrightarrow>
                evalTable tableRef simpleOpImplMap (Suc k) ev' n = Some (Inr p, ev'))
          \<and> (\<forall>n t. promises ev' n = Some (Fulfilled t) \<longrightarrow>
                count_list (executed ev') n = 1
                \<and> (\<forall>c\<in>set (tableNums (valExps ev' ! n)). \<exists>t'. promises ev' c = Some (Fulfilled t')))
          \<and> (\<forall>p. out = Inr p \<longrightarrow> set (executed ev') \<subseteq> dom (promises ev'))
          \<and> (\<forall>n p. promises ev' n = Some p \<longrightarrow>
                n < length (valExps ev')
                \<and> (\<forall>c\<in>set (tableNums (valExps ev' ! n)). promises ev' c \<noteq> None)
                \<and> count_list (executed ev') n =
                    (if \<forall>c\<in>set (tableNums (valExps ev' ! n)). \<exists>t'. promises ev' c = Some (Fulfilled t')
                     then 1 else 0)
                \<and> (count_list (executed ev') n = 0 \<longrightarrow> (\<exists>err. p = Rejected err))))"
proof -
  have a: "(query, root) \<in> set (calls (new_Session :: 't Session) query)"
    using query_in_calls [of query "new_Session :: 't Session"] assms(1) by simp
  have b: "\<forall>c1\<in>set (calls (new_Session :: 't Session) query).
          \<forall>c2\<in>set (calls (new_Session :: 't Session) query). fst c1 = fst c2 \<longrightarrow> snd c1 = snd c2"
    using same_subexpression_same_number by blast
  from buildCSEMap_wf(1) [OF new_Session_pre(1,2) assms(1)]
  have wf: "wf_nums evaluator" and p: "promises evaluator = promises (new_Session :: 't Session)"
    and m: "CSEEvaluator.more evaluator = CSEEvaluator.more (new_Session :: 't Session)"
    by simp_all
  from m have x: "executed evaluator = []"
    by (cases evaluator) (simp add: new_Session_def)
  from p have p0: "promises evaluator = Map.empty" by (simp add: new_Session_def)
  have inv: "eval_inv evaluator" and cov: "memo_covers evaluator"
    by (simp_all add: eval_inv_def memo_covers_def x p0)
  from evalTable_ok [OF assms(2), of tableRef simpleOpImplMap] wf inv cov
  obtain out ev' where e: "evalTable tableRef simpleOpImplMap fuel evaluator root = Some (out, ev')"
    and s: "eval_step (Suc root) evaluator ev'"
    and r: "\<forall>p. out = Inr p \<longrightarrow> memo_covers ev' \<and> promises ev' root = Some p"
    unfolding eval_ok_def by blast
  from s have v: "valExps ev' = valExps evaluator" and i: "eval_inv ev'"
    by (simp_all add: eval_step_def)
  from i have d: "distinct (executed ev')" by (simp add: eval_inv_def)
  have c: "localEvalQuery tableRef simpleOpImplMap fuel query = Some (out, ev')"
    by (simp add: localEvalQuery_def assms(1) e)
  have once: "\<forall>n. count_list (executed ev') n \<le> 1"
    by (simp add: count_list_distinct [OF d])
  have memo: "\<forall>n p k. promises ev' n = Some p \<longrightarrow>
                evalTable tableRef simpleOpImplMap (Suc k) ev' n = Some (Inr p, ev')"
    by simp
  have ful: "\<forall>n t. promises ev' n = Some (Fulfilled t) \<longrightarrow>
                count_list (executed ev') n = 1
                \<and> (\<forall>c\<in>set (tableNums (valExps ev' ! n)). \<exists>t'. promises ev' c = Some (Fulfilled t'))"
  proof (intro allI impI)
    fix n t assume q: "promises ev' n = Some (Fulfilled t)"
    with i have "n \<notin> set (executed ev') \<longrightarrow> (\<exists>err. Fulfilled t = Rejected err)"
      and "(n \<in> set (executed ev')) =
            (\<forall>c\<in>set (tableNums (valExps ev' ! n)). \<exists>t'. promises ev' c = Some (Fulfilled t'))"
      unfolding eval_inv_def by blast+
    then show "count_list (executed ev') n = 1
        \<and> (\<forall>c\<in>set (tableNums (valExps ev' ! n)). \<exists>t'. promises ev' c = Some (Fulfilled t'))"
      by (simp add: count_list_distinct [OF d])
  qed
  have cover: "\<forall>p. out = Inr p \<longrightarrow> set (executed ev') \<subseteq> dom (promises ev')"
    using r by (simp add: memo_covers_def)
  have exact: "\<forall>n p. promises ev' n = Some p \<longrightarrow>
                n < length (valExps ev')
                \<and> (\<forall>c\<in>set (tableNums (valExps ev' ! n)). promises ev' c \<noteq> None)
                \<and> count_list (executed ev') n =
                    (if \<forall>c\<in>set (tableNums (valExps ev' ! n)). \<exists>t'. promises ev' c = Some (Fulfilled t')
                     then 1 else 0)
                \<and> (count_list (executed ev') n = 0 \<longrightarrow> (\<exists>err. p = Rejected err))"
  proof (intro allI impI)
    fix n p assume q: "promises ev' n = Some p"
    with i have l: "n < length (valExps ev')"
      and ch: "\<forall>c\<in>set (tableNums (valExps ev' ! n)). promises ev' c \<noteq> None"
      and ex: "(n \<in> set (executed ev')) =
            (\<forall>c\<in>set (tableNums (valExps ev' ! n)). \<exists>t'. promises ev' c = Some (Fulfilled t'))"
      and rj: "n \<notin> set (executed ev') \<longrightarrow> (\<exists>err. p = Rejected err)"
      unfolding eval_inv_def by blast+
    from ex have "count_list (executed ev') n =
        (if \<forall>c\<in>set (tableNums (valExps ev' ! n)). \<exists>t'. promises ev' c = Some (Fulfilled t')
         then 1 else 0)"
      by (simp add: count_list_distinct [OF d])
    moreover from rj have "count_list (executed ev') n = 0 \<longrightarrow> (\<exists>err. p = Rejected err)"
      by (simp add: count_list_distinct [OF d])
    ultimately show "n < length (valExps ev')
        \<and> (\<forall>c\<in>set (tableNums (valExps ev' ! n)). promises ev' c \<noteq> None)
        \<and> count_list (executed ev') n =
            (if \<forall>c\<in>set (tableNums (valExps ev' ! n)). \<exists>t'. promises ev' c = Some (Fulfilled t')
             then 1 else 0)
        \<and> (count_list (executed ev') n = 0 \<longrightarrow> (\<exists>err. p = Rejected err))"
      using l ch by blast
  qed
  from a b c v once r memo ful cover exact show ?thesis by blast
qed

text \<open>
  The theorem at a query with a shared subexpression: the \<open>concat\<close> of two identical
  projections of one table.  The five invocations of \<open>buildCSEMap\<close> return the numbers
  0, 1, 0, 1, 2, and the evaluation executes the three value numbers once each.
\<close>

theorem structural_sharing_witness:
  "fst (buildCSEMap (new_Session :: nat Session)
        (QueryExp ''concat'' []
          [QueryExp ''project'' [JArr [JStr ''a'']] [QueryExp ''table'' [JStr ''t''] []],
           QueryExp ''project'' [JArr [JStr ''a'']] [QueryExp ''table'' [JStr ''t''] []]])) = 2
   \<and> (2::nat) < 3
   \<and> map snd (calls (new_Session :: nat Session)
        (QueryExp ''concat'' []
          [QueryExp ''project'' [JArr [JStr ''a'']] [QueryExp ''table'' [JStr ''t''] []],
           QueryExp ''project'' [JArr [JStr ''a'']] [QueryExp ''table'' [JStr ''t''] []]]))
       = [0, 1, 0, 1, 2]
   \<and> map_option (\<lambda>r. (fst r, executed (snd r)))
        (localEvalQuery (\<lambda>args. Inr (Fulfilled (0::nat)))
          (\<lambda>opr. Some (\<lambda>args ts. Inr (Suc (sum_list ts)))) 3
          (QueryExp ''concat'' []
            [QueryExp ''project'' [JArr [JStr ''a'']] [QueryExp ''table'' [JStr ''t''] []],
             QueryExp ''project'' [JArr [JStr ''a'']] [QueryExp ''table'' [JStr ''t''] []]]))
       = Some (Inr (Fulfilled 3), [0, 1, 2])"
proof -
  let ?q = "QueryExp ''concat'' []
          [QueryExp ''project'' [JArr [JStr ''a'']] [QueryExp ''table'' [JStr ''t''] []],
           QueryExp ''project'' [JArr [JStr ''a'']] [QueryExp ''table'' [JStr ''t''] []]]"
  let ?B = "\<lambda>args :: jsval list. Inr (Fulfilled (0::nat)) :: error + nat promise"
  let ?I = "\<lambda>opr :: string. Some (\<lambda>(args :: jsval list) ts. Inr (Suc (sum_list ts)) :: error + nat)"
  have root: "fst (buildCSEMap (new_Session :: nat Session) ?q) = 2"
    by code_simp
  then have b: "buildCSEMap (new_Session :: nat Session) ?q = (2, snd (buildCSEMap new_Session ?q))"
    by (simp add: prod_eq_iff)
  have lt: "(2::nat) < 3" by simp
  have cs: "map snd (calls (new_Session :: nat Session) ?q) = [0, 1, 0, 1, 2]"
    by code_simp
  have ev: "map_option (\<lambda>r. (fst r, executed (snd r))) (localEvalQuery ?B ?I 3 ?q)
      = Some (Inr (Fulfilled 3), [0, 1, 2])"
    by code_simp
  from structural_sharing [OF b lt, of ?B ?I]
  have "(?q, 2) \<in> set (calls (new_Session :: nat Session) ?q)"
    by (rule conjunct1)
  with root lt cs ev show ?thesis by simp
qed

text \<open>
  The claim as stated fails: a shared subexpression need not be executed once.  When the
  promise of the table source is rejected, the promise of the shared projection (value
  number 1) is rejected without its transform being executed at all; only the table
  (value number 0) is executed.
\<close>

theorem shared_transform_not_executed_counterexample:
  "(QueryExp ''project'' [JArr [JStr ''a'']] [QueryExp ''table'' [JStr ''t''] []], 1)
     \<in> set (calls (new_Session :: nat Session)
        (QueryExp ''concat'' []
          [QueryExp ''project'' [JArr [JStr ''a'']] [QueryExp ''table'' [JStr ''t''] []],
           QueryExp ''project'' [JArr [JStr ''a'']] [QueryExp ''table'' [JStr ''t''] []]]))
   \<and> localEvalQuery (\<lambda>args. Inr (Rejected (External ''load failed'')))
        (\<lambda>opr. Some (\<lambda>args ts. Inr (0::nat))) 3
        (QueryExp ''concat'' []
          [QueryExp ''project'' [JArr [JStr ''a'']] [QueryExp ''table'' [JStr ''t''] []],
           QueryExp ''project'' [JArr [JStr ''a'']] [QueryExp ''table'' [JStr ''t''] []]]) \<noteq> None
   \<and> fst (the (localEvalQuery (\<lambda>args. Inr (Rejected (External ''load failed'')))
        (\<lambda>opr. Some (\<lambda>args ts. Inr (0::nat))) 3
        (QueryExp ''concat'' []
          [QueryExp ''project'' [JArr [JStr ''a'']] [QueryExp ''table'' [JStr ''t''] []],
           QueryExp ''project'' [JArr [JStr ''a'']] [QueryExp ''table'' [JStr ''t''] []]])))
       = Inr (Rejected (External ''load failed''))
   \<and> count_list (executed (snd (the
        (localEvalQuery (\<lambda>args. Inr (Rejected (External ''load failed'')))
        (\<lambda>opr. Some (\<lambda>args ts. Inr (0::nat))) 3
          (QueryExp ''concat'' []
            [QueryExp ''project'' [JArr [JStr ''a'']] [QueryExp ''table'' [JStr ''t''] []],
             QueryExp ''project'' [JArr [JStr ''a'']] [QueryExp ''table'' [JStr ''t''] []]]))))) 1 = 0"
  by code_simp

end
